theory Spec2Isabelle
  imports Complex_Main "HOL-Library.Product_Lexorder" "HOL-Library.AList"
begin

section \<open>Python values shared by the policy engines\<close>

text \<open>
  The exceptions an engine can raise. A call that can raise returns \<open>py_error + 'a\<close>,
  with \<open>Inl\<close> for the exception.
\<close>

datatype py_error = KeyError | IndexError | ZeroDivisionError | OverflowError | ValueError

text \<open>
  Every \<open>OrderedDict\<close> of the sources stores the value \<open>True\<close> under each key and never
  reads it, so such a dictionary is the list of its keys in insertion order, oldest
  first. \<open>d[k] = True\<close> appends \<open>k\<close> when it is new and leaves the order alone when it
  is present; \<open>d.move_to_end(k)\<close> and \<open>d.pop(k)\<close> are only called by the sources under
  a test \<open>k in d\<close>; \<open>d.popitem(last=False)\<close> removes the first key and raises
  \<open>KeyError\<close> on an empty dictionary.
\<close>

definition od_setitem :: "int \<Rightarrow> int list \<Rightarrow> int list" where
  "od_setitem k d = (if k \<in> set d then d else d @ [k])"

definition od_move_to_end :: "int \<Rightarrow> int list \<Rightarrow> int list" where
  "od_move_to_end k d = remove1 k d @ [k]"

definition od_pop :: "int \<Rightarrow> int list \<Rightarrow> int list" where
  "od_pop k d = remove1 k d"

definition od_popitem_first :: "int list \<Rightarrow> py_error + (int \<times> int list)" where
  "od_popitem_first d = (case d of [] \<Rightarrow> Inl KeyError | old # rest \<Rightarrow> Inr (old, rest))"

text \<open>
  A string is a list of characters with code points below 256. \<open>s.strip()\<close> removes the
  leading and the trailing white space, the characters for which \<open>str.isspace\<close> holds
  (code points 9 to 13, 28 to 32, 133 and 160); \<open>s.lower()\<close> replaces \<open>A\<close> to \<open>Z\<close> and
  the upper-case letters 192 to 222 (the multiplication sign 215 apart) by the letter
  32 code points higher and leaves every other character alone.
\<close>

definition py_isspace :: "char \<Rightarrow> bool" where
  "py_isspace ch = (of_char ch \<in> {9, 10, 11, 12, 13, 28, 29, 30, 31, 32, 133, 160 :: nat})"

definition py_strip :: "string \<Rightarrow> string" where
  "py_strip s = rev (dropWhile py_isspace (rev (dropWhile py_isspace s)))"

definition py_lower_char :: "char \<Rightarrow> char" where
  "py_lower_char ch =
     (let n = of_char ch :: nat
      in if (65 \<le> n \<and> n \<le> 90) \<or> (192 \<le> n \<and> n \<le> 222 \<and> n \<noteq> 215) then char_of (n + 32)
         else ch)"

definition py_lower :: "string \<Rightarrow> string" where
  "py_lower s = map py_lower_char s"

text \<open>
  The statistics dictionary every driver builds: its nine integer counters (the three
  ratios \<open>Hit Percentage\<close>, \<open>Read Hit Ratio\<close> and \<open>Write Hit Ratio\<close> are floats computed
  from them for display and are left out).
\<close>

record Stats =
  Read_Requests :: int
  Read_Hits :: int
  Read_Misses :: int
  Write_Requests :: int
  Write_Hits :: int
  Write_Misses :: int
  Total_Requests :: int
  Total_Hits :: int
  Total_Misses :: int

section \<open>LRU (policies/LRU.py)\<close>

record LRUCache =
  max_capacity :: int
  cache_store :: "int list"

definition LRUCache_init :: "int \<Rightarrow> LRUCache" where
  "LRUCache_init c = \<lparr>max_capacity = c, cache_store = []\<rparr>"

definition access_or_update_cache :: "LRUCache \<Rightarrow> int \<Rightarrow> py_error + (LRUCache \<times> bool)" where
  "access_or_update_cache s item =
     (if item \<in> set (cache_store s) then
        Inr (s\<lparr>cache_store := od_move_to_end item (cache_store s)\<rparr>, True)
      else if int (length (cache_store s)) \<ge> max_capacity s then
        (case od_popitem_first (cache_store s) of
           Inl e \<Rightarrow> Inl e
         | Inr (old, rest) \<Rightarrow> Inr (s\<lparr>cache_store := od_setitem item rest\<rparr>, False))
      else Inr (s\<lparr>cache_store := od_setitem item (cache_store s)\<rparr>, False))"

text \<open>
  The loop of \<open>simulate_lru_policy\<close> over the rows \<open>(offset, operation)\<close> of the dataset,
  with its four counters \<open>(read_requests, read_misses, write_requests, write_misses)\<close>.
  Every operation other than \<open>'Read'\<close> is counted as a write.
\<close>

type_synonym lru_counters = "int \<times> int \<times> int \<times> int"

fun lru_loop :: "LRUCache \<Rightarrow> lru_counters \<Rightarrow> (int \<times> string) list \<Rightarrow> py_error + (LRUCache \<times> lru_counters)" where
  "lru_loop s cs [] = Inr (s, cs)"
| "lru_loop s (rr, rm, wr, wm) ((offset, operation_type) # rows) =
     (case access_or_update_cache s offset of
        Inl e \<Rightarrow> Inl e
      | Inr (s', hit) \<Rightarrow>
          if operation_type = ''Read'' then
            lru_loop s' (rr + 1, (if \<not> hit then rm + 1 else rm), wr, wm) rows
          else
            lru_loop s' (rr, rm, wr + 1, (if \<not> hit then wm + 1 else wm)) rows)"

definition collect_statistics :: "int \<Rightarrow> int \<Rightarrow> int \<Rightarrow> int \<Rightarrow> Stats" where
  "collect_statistics reads read_misses writes write_misses =
     (let total_requests = reads + writes;
          total_misses = read_misses + write_misses;
          total_hits = total_requests - total_misses;
          read_hits = reads - read_misses;
          write_hits = writes - write_misses
      in \<lparr>Read_Requests = reads, Read_Hits = read_hits, Read_Misses = read_misses,
          Write_Requests = writes, Write_Hits = write_hits, Write_Misses = write_misses,
          Total_Requests = total_requests, Total_Hits = total_hits,
          Total_Misses = total_misses\<rparr>)"

definition simulate_lru_policy :: "LRUCache \<Rightarrow> (int \<times> string) list \<Rightarrow> py_error + (LRUCache \<times> Stats)" where
  "simulate_lru_policy s dataset =
     (case lru_loop s (0, 0, 0, 0) dataset of
        Inl e \<Rightarrow> Inl e
      | Inr (s', (rr, rm, wr, wm)) \<Rightarrow> Inr (s', collect_statistics rr rm wr wm))"

text \<open>The hit or miss of each request of a key sequence, and the state after it.\<close>

fun lru_run :: "LRUCache \<Rightarrow> int list \<Rightarrow> py_error + (LRUCache \<times> bool list)" where
  "lru_run s [] = Inr (s, [])"
| "lru_run s (k # ks) =
     (case access_or_update_cache s k of
        Inl e \<Rightarrow> Inl e
      | Inr (s', hit) \<Rightarrow>
          (case lru_run s' ks of Inl e \<Rightarrow> Inl e | Inr (s'', hs) \<Rightarrow> Inr (s'', hit # hs)))"

section \<open>Belady / OPT (policies/Belady.py)\<close>

text \<open>
  A next-use value is a list index or \<open>float('inf')\<close>. The heap holds the tuples
  \<open>(-next_use, page)\<close>; an entry is kept here as \<open>(next_use, page)\<close> and
  \<open>entry_less\<close> is Python's tuple comparison of the two negated tuples.
\<close>

datatype nextuse = Fin int | INFINITY

fun nu_less :: "nextuse \<Rightarrow> nextuse \<Rightarrow> bool" where
  "nu_less (Fin a) (Fin b) = (a < b)"
| "nu_less (Fin a) INFINITY = True"
| "nu_less INFINITY _ = False"

type_synonym heap_entry = "nextuse \<times> int"

definition entry_less :: "heap_entry \<Rightarrow> heap_entry \<Rightarrow> bool" where
  "entry_less e1 e2 = (nu_less (fst e2) (fst e1) \<or> (fst e1 = fst e2 \<and> snd e1 < snd e2))"

text \<open>
  \<open>heapq\<close> keeps a binary heap in a list. All that \<open>heappush\<close> and \<open>heappop\<close> let a
  caller observe is which entry a pop returns: the least one under the tuple order,
  which is total, so that equal entries are the same tuple. The heap is therefore the
  bag of its entries.
\<close>

fun heap_least :: "heap_entry \<Rightarrow> heap_entry list \<Rightarrow> heap_entry" where
  "heap_least m [] = m"
| "heap_least m (e # es) = heap_least (if entry_less e m then e else m) es"

definition heappush :: "heap_entry list \<Rightarrow> heap_entry \<Rightarrow> heap_entry list" where
  "heappush h e = e # h"

definition heappop :: "heap_entry list \<Rightarrow> (heap_entry \<times> heap_entry list) option" where
  "heappop h = (case h of [] \<Rightarrow> None
                | e # es \<Rightarrow> (let m = heap_least e es in Some (m, remove1 m h)))"

record OptimalCache =
  capacity :: int
  cache :: "int set"
  heap :: "heap_entry list"
  page_next_use :: "int \<rightharpoonup> nextuse"
  seen_pages :: "int set"

definition OptimalCache_init :: "int \<Rightarrow> OptimalCache" where
  "OptimalCache_init c =
     \<lparr>capacity = c, cache = {}, heap = [], page_next_use = Map.empty, seen_pages = {}\<rparr>"

definition is_hit :: "OptimalCache \<Rightarrow> int \<Rightarrow> bool" where
  "is_hit s page = (page \<in> OptimalCache.cache s)"

definition dict_get :: "(int \<rightharpoonup> nextuse) \<Rightarrow> int \<Rightarrow> nextuse \<Rightarrow> nextuse" where
  "dict_get d k dflt = (case d k of None \<Rightarrow> dflt | Some v \<Rightarrow> v)"

text \<open>
  The eviction loop \<open>while self.heap: ...\<close> of \<open>access_page\<close>: it pops entries until one
  names a resident page with the recorded next use, evicts that page and stops, or
  until the heap is empty. \<open>del self.page_next_use[farthest_page]\<close> raises \<open>KeyError\<close>
  when the page has no entry.
\<close>

lemma heap_least_mem: "heap_least m es \<in> set (m # es)"
  by (induction es arbitrary: m) (auto split: if_splits)

lemma heappop_shorter: "heappop h = Some (m, h') \<Longrightarrow> length h' < length h"
proof -
  assume a: "heappop h = Some (m, h')"
  then obtain e es where h: "h = e # es"
    by (cases h) (auto simp: heappop_def)
  with a have m: "m = heap_least e es" and h': "h' = remove1 m h"
    by (auto simp: heappop_def Let_def)
  have "m \<in> set h" using heap_least_mem[of e es] m h by simp
  then have "length (remove1 m h) = length h - 1" and "0 < length h"
    by (auto simp: length_remove1)
  then show ?thesis unfolding h' by linarith
qed

function evict_loop :: "OptimalCache \<Rightarrow> py_error + (OptimalCache \<times> int option)" where
  "evict_loop s =
     (case heappop (heap s) of
        None \<Rightarrow> Inr (s, None)
      | Some ((farthest_nu, farthest_page), h') \<Rightarrow>
          if farthest_page \<in> OptimalCache.cache s
             \<and> dict_get (page_next_use s) farthest_page (Fin (- 1)) = farthest_nu
          then
            (case page_next_use s farthest_page of
               None \<Rightarrow> Inl KeyError
             | Some _ \<Rightarrow>
                 Inr (s\<lparr>heap := h',
                        OptimalCache.cache := OptimalCache.cache s - {farthest_page},
                        page_next_use := (page_next_use s)(farthest_page := None)\<rparr>,
                      Some farthest_page))
          else evict_loop (s\<lparr>heap := h'\<rparr>))"
  by pat_completeness auto
termination
  by (relation "measure (\<lambda>s. length (heap s))") (auto dest: heappop_shorter)

declare evict_loop.simps [simp del]

definition access_page :: "OptimalCache \<Rightarrow> int \<Rightarrow> nextuse \<Rightarrow> py_error + (OptimalCache \<times> bool \<times> int option)" where
  "access_page s page next_use =
     (if page \<in> OptimalCache.cache s then
        Inr (s\<lparr>page_next_use := (page_next_use s)(page \<mapsto> next_use),
               heap := heappush (heap s) (next_use, page)\<rparr>, True, None)
      else
        (case (if int (card (OptimalCache.cache s)) \<ge> OptimalCache.capacity s
               then evict_loop s else Inr (s, None)) of
           Inl e \<Rightarrow> Inl e
         | Inr (s1, evicted_page) \<Rightarrow>
             Inr (s1\<lparr>OptimalCache.cache := insert page (OptimalCache.cache s1),
                     page_next_use := (page_next_use s1)(page \<mapsto> next_use),
                     heap := heappush (heap s1) (next_use, page)\<rparr>, False, evicted_page)))"

definition current_occupancy :: "OptimalCache \<Rightarrow> int" where
  "current_occupancy s = int (card (OptimalCache.cache s))"

text \<open>
  \<open>precompute_next_use\<close>: the loop \<open>for i in range(N - 1, -1, -1)\<close> as a recursion on
  the number of positions still to visit; the step for \<open>Suc i\<close> handles position \<open>i\<close>.
\<close>

fun precompute_loop :: "nat \<Rightarrow> (int \<times> string) list \<Rightarrow> nextuse list \<Rightarrow> (int \<rightharpoonup> nat) \<Rightarrow> nextuse list" where
  "precompute_loop 0 sequence next_use last_occurrence = next_use"
| "precompute_loop (Suc i) sequence next_use last_occurrence =
     (let page = fst (sequence ! i);
          next_use' = (case last_occurrence page of
                         Some j \<Rightarrow> next_use[i := Fin (int j)]
                       | None \<Rightarrow> next_use)
      in precompute_loop i sequence next_use' (last_occurrence(page \<mapsto> i)))"

definition precompute_next_use :: "(int \<times> string) list \<Rightarrow> nextuse list" where
  "precompute_next_use sequence =
     precompute_loop (length sequence) sequence (replicate (length sequence) INFINITY) Map.empty"

text \<open>
  The loop of \<open>CacheSimulator.simulate\<close>: position \<open>i\<close> reads \<open>sequence[i]\<close> and
  \<open>next_use[i]\<close>, so the two lists are consumed in step and a \<open>next_use\<close> that is too
  short raises \<open>IndexError\<close>. The counters are \<open>(total_hits, total_misses, read_hits,
  read_misses, write_hits, write_misses)\<close>; a request type other than \<open>'read'\<close> is
  counted as a write.
\<close>

type_synonym opt_counters = "int \<times> int \<times> int \<times> int \<times> int \<times> int"

fun belady_loop :: "OptimalCache \<Rightarrow> opt_counters \<Rightarrow> (int \<times> string) list \<Rightarrow> nextuse list \<Rightarrow> py_error + (OptimalCache \<times> opt_counters)" where
  "belady_loop s cs [] nus = Inr (s, cs)"
| "belady_loop s cs (r # rs) [] = Inl IndexError"
| "belady_loop s (th, tm, rh, rm, wh, wm) ((page, req_type) # rs) (nu # nus) =
     (if is_hit s page then
        (case access_page s page nu of
           Inl e \<Rightarrow> Inl e
         | Inr (s', _) \<Rightarrow>
             if req_type = ''read'' then belady_loop s' (th + 1, tm, rh + 1, rm, wh, wm) rs nus
             else belady_loop s' (th + 1, tm, rh, rm, wh + 1, wm) rs nus)
      else
        (case access_page s page nu of
           Inl e \<Rightarrow> Inl e
         | Inr (s', _) \<Rightarrow>
             if req_type = ''read'' then belady_loop s' (th, tm + 1, rh, rm + 1, wh, wm) rs nus
             else belady_loop s' (th, tm + 1, rh, rm, wh, wm + 1) rs nus))"

definition CacheSimulator_simulate :: "int \<Rightarrow> (int \<times> string) list \<Rightarrow> nextuse list \<Rightarrow> py_error + (OptimalCache \<times> Stats)" where
  "CacheSimulator_simulate csize sequence next_use =
     (case belady_loop (OptimalCache_init csize) (0, 0, 0, 0, 0, 0) sequence next_use of
        Inl e \<Rightarrow> Inl e
      | Inr (s, (th, tm, rh, rm, wh, wm)) \<Rightarrow>
          Inr (s, \<lparr>Read_Requests = rh + rm, Read_Hits = rh, Read_Misses = rm,
                   Write_Requests = wh + wm, Write_Hits = wh, Write_Misses = wm,
                   Total_Requests = int (length sequence), Total_Hits = th,
                   Total_Misses = tm\<rparr>))"

text \<open>
  The hit or miss of each access of a run of \<open>access_page\<close> over pages paired with
  their next-use values, and the state after it.
\<close>

fun opt_run :: "OptimalCache \<Rightarrow> (int \<times> nextuse) list \<Rightarrow> py_error + (OptimalCache \<times> bool list)" where
  "opt_run s [] = Inr (s, [])"
| "opt_run s ((page, nu) # rs) =
     (case access_page s page nu of
        Inl e \<Rightarrow> Inl e
      | Inr (s', hit, _) \<Rightarrow>
          (case opt_run s' rs of Inl e \<Rightarrow> Inl e | Inr (s'', hs) \<Rightarrow> Inr (s'', hit # hs)))"

section \<open>ARC (policies/ARC.py)\<close>

record ARCCache =
  cache_size :: int
  T1 :: "int list"
  T2 :: "int list"
  B1 :: "int list"
  B2 :: "int list"
  p :: int

definition ARCCache_init :: "int \<Rightarrow> ARCCache" where
  "ARCCache_init c = \<lparr>cache_size = c, T1 = [], T2 = [], B1 = [], B2 = [], p = 0\<rparr>"

text \<open>
  The two \<open>while\<close> loops at the end of \<open>process_request\<close>. An iteration whose inner
  \<open>if self.T1:\<close> (or \<open>T2\<close>, \<open>B1\<close>, \<open>B2\<close>) finds the list empty changes nothing, and the
  loop then never ends: not returning is the value \<open>None\<close>.
\<close>

partial_function (option) arc_balance :: "ARCCache \<Rightarrow> ARCCache option" where
  "arc_balance s =
     (if int (length (T1 s)) + int (length (T2 s)) > ARCCache.cache_size s then
        (if int (length (T1 s)) > p s then
           (if T1 s \<noteq> [] then
              arc_balance (s\<lparr>T1 := tl (T1 s), B1 := od_setitem (hd (T1 s)) (B1 s)\<rparr>)
            else arc_balance s)
         else
           (if T2 s \<noteq> [] then
              arc_balance (s\<lparr>T2 := tl (T2 s), B2 := od_setitem (hd (T2 s)) (B2 s)\<rparr>)
            else arc_balance s))
      else Some s)"

partial_function (option) arc_trim :: "ARCCache \<Rightarrow> ARCCache option" where
  "arc_trim s =
     (if int (length (T1 s)) + int (length (T2 s)) + int (length (B1 s)) + int (length (B2 s))
           > 2 * ARCCache.cache_size s then
        (if int (length (B1 s)) > p s then
           (if B1 s \<noteq> [] then arc_trim (s\<lparr>B1 := tl (B1 s)\<rparr>) else arc_trim s)
         else
           (if B2 s \<noteq> [] then arc_trim (s\<lparr>B2 := tl (B2 s)\<rparr>) else arc_trim s))
      else Some s)"

declare arc_balance.simps [code] arc_trim.simps [code]

definition ARCCache_process_request :: "ARCCache \<Rightarrow> int \<Rightarrow> (ARCCache \<times> bool) option" where
  "ARCCache_process_request s page =
     (if page \<in> set (T1 s) \<or> page \<in> set (T2 s) then
        (if page \<in> set (T1 s) then
           Some (s\<lparr>T1 := od_pop page (T1 s), T2 := od_setitem page (T2 s)\<rparr>, True)
         else Some (s\<lparr>T2 := od_move_to_end page (T2 s)\<rparr>, True))
      else
        (let s1 =
           (if page \<in> set (B1 s) then
              s\<lparr>p := min (ARCCache.cache_size s)
                         (p s + max 1 (int (length (B2 s)) div max 1 (int (length (B1 s))))),
                B1 := od_pop page (B1 s), T2 := od_setitem page (T2 s)\<rparr>
            else if page \<in> set (B2 s) then
              s\<lparr>p := max 0 (p s - max 1 (int (length (B1 s)) div max 1 (int (length (B2 s))))),
                B2 := od_pop page (B2 s), T2 := od_setitem page (T2 s)\<rparr>
            else s\<lparr>T1 := od_setitem page (T1 s)\<rparr>)
         in case arc_balance s1 of
              None \<Rightarrow> None
            | Some s2 \<Rightarrow> (case arc_trim s2 of None \<Rightarrow> None | Some s3 \<Rightarrow> Some (s3, False))))"

text \<open>
  The loop of \<open>ARCCache.simulate\<close> (and of \<open>LARCCache.simulate\<close>, which has the same
  text): a row whose operation is neither \<open>"Read"\<close> nor \<open>"Write"\<close> is passed over
  without a request. The counters are \<open>(read_requests, write_requests, read_hits,
  write_hits, read_misses, write_misses)\<close>.
\<close>

type_synonym arc_counters = "int \<times> int \<times> int \<times> int \<times> int \<times> int"

definition arc_stats :: "arc_counters \<Rightarrow> Stats" where
  "arc_stats cs = (case cs of (rr, wr, rh, wh, rm, wm) \<Rightarrow>
     \<lparr>Read_Requests = rr, Read_Hits = rh, Read_Misses = rm,
      Write_Requests = wr, Write_Hits = wh, Write_Misses = wm,
      Total_Requests = rr + wr, Total_Hits = rh + wh, Total_Misses = rm + wm\<rparr>)"

fun arc_loop :: "ARCCache \<Rightarrow> arc_counters \<Rightarrow> (int \<times> string) list \<Rightarrow> (ARCCache \<times> arc_counters) option" where
  "arc_loop s cs [] = Some (s, cs)"
| "arc_loop s (rr, wr, rh, wh, rm, wm) ((page, operation) # rows) =
     (if operation = ''Read'' then
        (case ARCCache_process_request s page of
           None \<Rightarrow> None
         | Some (s', hit) \<Rightarrow>
             if hit then arc_loop s' (rr + 1, wr, rh + 1, wh, rm, wm) rows
             else arc_loop s' (rr + 1, wr, rh, wh, rm + 1, wm) rows)
      else if operation = ''Write'' then
        (case ARCCache_process_request s page of
           None \<Rightarrow> None
         | Some (s', hit) \<Rightarrow>
             if hit then arc_loop s' (rr, wr + 1, rh, wh + 1, rm, wm) rows
             else arc_loop s' (rr, wr + 1, rh, wh, rm, wm + 1) rows)
      else arc_loop s (rr, wr, rh, wh, rm, wm) rows)"

definition ARCCache_simulate :: "ARCCache \<Rightarrow> (int \<times> string) list \<Rightarrow> (ARCCache \<times> Stats) option" where
  "ARCCache_simulate s dataset =
     (case arc_loop s (0, 0, 0, 0, 0, 0) dataset of
        None \<Rightarrow> None
      | Some (s', cs) \<Rightarrow> Some (s', arc_stats cs))"

fun arc_run :: "ARCCache \<Rightarrow> int list \<Rightarrow> (ARCCache \<times> bool list) option" where
  "arc_run s [] = Some (s, [])"
| "arc_run s (k # ks) =
     (case ARCCache_process_request s k of
        None \<Rightarrow> None
      | Some (s', hit) \<Rightarrow>
          (case arc_run s' ks of None \<Rightarrow> None | Some (s'', hs) \<Rightarrow> Some (s'', hit # hs)))"

section \<open>LARC (policies/LARC.py)\<close>

text \<open>
  \<open>recent_cache_limit\<close> is a Python float. It is modelled by the exact rational the
  float arithmetic approximates; a float division by zero raises
  \<open>ZeroDivisionError\<close>.
\<close>

record LARCCache =
  cache_size :: int
  cache :: "int list"
  recent_cache :: "int list"
  recent_cache_limit :: rat

definition LARCCache_init :: "int \<Rightarrow> LARCCache" where
  "LARCCache_init c =
     \<lparr>cache_size = c, cache = [], recent_cache = [], recent_cache_limit = (1 / 10) * of_int c\<rparr>"

definition LARCCache_process_request :: "LARCCache \<Rightarrow> int \<Rightarrow> py_error + (LARCCache \<times> bool)" where
  "LARCCache_process_request s page =
     (if page \<in> set (LARCCache.cache s) then
        (if of_int (LARCCache.cache_size s) - recent_cache_limit s = 0 then Inl ZeroDivisionError
         else Inr (s\<lparr>LARCCache.cache := od_move_to_end page (LARCCache.cache s),
                     recent_cache_limit :=
                       max ((1 / 10) * of_int (LARCCache.cache_size s))
                           (recent_cache_limit s
                              - of_int (LARCCache.cache_size s)
                                  / (of_int (LARCCache.cache_size s) - recent_cache_limit s))\<rparr>,
                  True))
      else if page \<in> set (recent_cache s) then
        (if recent_cache_limit s = 0 then Inl ZeroDivisionError
         else
           (let s1 = s\<lparr>recent_cache_limit :=
                         min ((9 / 10) * of_int (LARCCache.cache_size s))
                             (recent_cache_limit s
                                + of_int (LARCCache.cache_size s) / recent_cache_limit s),
                       recent_cache := od_pop page (recent_cache s),
                       LARCCache.cache := od_setitem page (LARCCache.cache s)\<rparr>
            in if int (length (LARCCache.cache s1)) > LARCCache.cache_size s1 then
                 (case od_popitem_first (LARCCache.cache s1) of
                    Inl e \<Rightarrow> Inl e
                  | Inr (old, rest) \<Rightarrow> Inr (s1\<lparr>LARCCache.cache := rest\<rparr>, False))
               else Inr (s1, False)))
      else
        (let s1 = s\<lparr>recent_cache := od_setitem page (recent_cache s)\<rparr>
         in if of_int (int (length (recent_cache s1))) > recent_cache_limit s1 then
              (case od_popitem_first (recent_cache s1) of
                 Inl e \<Rightarrow> Inl e
               | Inr (old, rest) \<Rightarrow> Inr (s1\<lparr>recent_cache := rest\<rparr>, False))
            else Inr (s1, False)))"

fun larc_loop :: "LARCCache \<Rightarrow> arc_counters \<Rightarrow> (int \<times> string) list \<Rightarrow> py_error + (LARCCache \<times> arc_counters)" where
  "larc_loop s cs [] = Inr (s, cs)"
| "larc_loop s (rr, wr, rh, wh, rm, wm) ((page, operation) # rows) =
     (if operation = ''Read'' then
        (case LARCCache_process_request s page of
           Inl e \<Rightarrow> Inl e
         | Inr (s', hit) \<Rightarrow>
             if hit then larc_loop s' (rr + 1, wr, rh + 1, wh, rm, wm) rows
             else larc_loop s' (rr + 1, wr, rh, wh, rm + 1, wm) rows)
      else if operation = ''Write'' then
        (case LARCCache_process_request s page of
           Inl e \<Rightarrow> Inl e
         | Inr (s', hit) \<Rightarrow>
             if hit then larc_loop s' (rr, wr + 1, rh, wh + 1, rm, wm) rows
             else larc_loop s' (rr, wr + 1, rh, wh, rm, wm + 1) rows)
      else larc_loop s (rr, wr, rh, wh, rm, wm) rows)"

definition LARCCache_simulate :: "LARCCache \<Rightarrow> (int \<times> string) list \<Rightarrow> py_error + (LARCCache \<times> Stats)" where
  "LARCCache_simulate s dataset =
     (case larc_loop s (0, 0, 0, 0, 0, 0) dataset of
        Inl e \<Rightarrow> Inl e
      | Inr (s', cs) \<Rightarrow> Inr (s', arc_stats cs))"

fun larc_run :: "LARCCache \<Rightarrow> int list \<Rightarrow> py_error + (LARCCache \<times> bool list)" where
  "larc_run s [] = Inr (s, [])"
| "larc_run s (k # ks) =
     (case LARCCache_process_request s k of
        Inl e \<Rightarrow> Inl e
      | Inr (s', hit) \<Rightarrow>
          (case larc_run s' ks of Inl e \<Rightarrow> Inl e | Inr (s'', hs) \<Rightarrow> Inr (s'', hit # hs)))"

section \<open>N-Hit with lowest-count eviction (policies/N-Hit.py)\<close>

text \<open>
  \<open>cache\<close> is a \<open>dict\<close> whose length is read: an association list in insertion order.
  \<open>tracking\<close> is a \<open>defaultdict(int)\<close>: reading a missing key stores and returns 0.
  \<open>sorted_items\<close> is a \<open>SortedList\<close> of tuples \<open>(nhit, insertion_counter, item)\<close>: a
  list kept sorted under the lexicographic order of the tuples. \<open>trigger_threshold\<close>
  and the occupancy percentage are floats, modelled by exact rationals.
\<close>

record NHitCache =
  capacity :: int
  trigger_threshold :: rat
  insertion_threshold :: int
  cache :: "(int \<times> int) list"
  tracking :: "int \<rightharpoonup> int"
  sorted_items :: "(int \<times> int \<times> int) list"
  insertion_counter :: int

definition NHitCache_init :: "int \<Rightarrow> rat \<Rightarrow> int \<Rightarrow> NHitCache" where
  "NHitCache_init c trig ins =
     \<lparr>capacity = c, trigger_threshold = trig, insertion_threshold = ins, cache = [],
      tracking = Map.empty, sorted_items = [], insertion_counter = 0\<rparr>"

definition dd_getitem :: "(int \<rightharpoonup> int) \<Rightarrow> int \<Rightarrow> (int \<rightharpoonup> int) \<times> int" where
  "dd_getitem d k = (case d k of None \<Rightarrow> (d(k \<mapsto> 0), 0) | Some v \<Rightarrow> (d, v))"

definition NHitCache_evict :: "NHitCache \<Rightarrow> py_error + NHitCache" where
  "NHitCache_evict s =
     (case sorted_items s of
        [] \<Rightarrow> Inr s
      | (victim_nhit, victim_insertion_counter, victim_item) # rest \<Rightarrow>
          if victim_item \<in> fst ` set (NHitCache.cache s) then
            Inr (s\<lparr>sorted_items := rest,
                   NHitCache.cache := AList.delete victim_item (NHitCache.cache s)\<rparr>)
          else Inl KeyError)"

definition NHitCache_access :: "NHitCache \<Rightarrow> int \<Rightarrow> NHitCache" where
  "NHitCache_access s item =
     (case dd_getitem (tracking s) item of (d, v) \<Rightarrow> s\<lparr>tracking := d(item \<mapsto> v + 1)\<rparr>)"

definition promote :: "NHitCache \<Rightarrow> int \<Rightarrow> py_error + NHitCache" where
  "promote s item =
     (case (if int (length (NHitCache.cache s)) \<ge> NHitCache.capacity s
            then NHitCache_evict s else Inr s) of
        Inl e \<Rightarrow> Inl e
      | Inr s1 \<Rightarrow>
          (case dd_getitem (tracking s1) item of
             (d, nhit) \<Rightarrow>
               Inr (s1\<lparr>tracking := d,
                       NHitCache.cache := AList.update item nhit (NHitCache.cache s1),
                       insertion_counter := insertion_counter s1 + 1,
                       sorted_items :=
                         insort (nhit, insertion_counter s1 + 1, item) (sorted_items s1)\<rparr>)))"

definition should_promote :: "NHitCache \<Rightarrow> int \<Rightarrow> py_error + (NHitCache \<times> bool)" where
  "should_promote s item =
     (if NHitCache.capacity s = 0 then Inl ZeroDivisionError
      else
        (let occupancy_percent =
               100 * of_int (int (length (NHitCache.cache s))) / of_int (NHitCache.capacity s)
         in if occupancy_percent \<le> NHitCache.trigger_threshold s then Inr (s, True)
            else (case dd_getitem (tracking s) item of
                    (d, v) \<Rightarrow> Inr (s\<lparr>tracking := d\<rparr>, v \<ge> insertion_threshold s))))"

text \<open>
  What one iteration of the loop of \<open>simulate_nhit\<close> does to the engine, with the result
  of its test \<open>offset in nhit_cache.cache\<close>.
\<close>

definition nhit_request :: "NHitCache \<Rightarrow> int \<Rightarrow> py_error + (NHitCache \<times> bool)" where
  "nhit_request s offset =
     (if offset \<in> fst ` set (NHitCache.cache s) then Inr (s, True)
      else
        (case should_promote (NHitCache_access s offset) offset of
           Inl e \<Rightarrow> Inl e
         | Inr (s2, b) \<Rightarrow>
             if b then (case promote s2 offset of Inl e \<Rightarrow> Inl e | Inr s3 \<Rightarrow> Inr (s3, False))
             else Inr (s2, False)))"

text \<open>
  The loop of \<open>simulate_nhit\<close> with its counters \<open>(total_requests, read_hits,
  read_misses, write_hits, write_misses, cold_misses)\<close> and the set \<open>tracked_access\<close>.
  An operation other than \<open>"Read"\<close> is counted as a write.
\<close>

type_synonym nhit_counters = "int \<times> int \<times> int \<times> int \<times> int \<times> int"

fun nhit_loop :: "NHitCache \<Rightarrow> nhit_counters \<Rightarrow> int set \<Rightarrow> (int \<times> string) list \<Rightarrow> py_error + (NHitCache \<times> nhit_counters \<times> int set)" where
  "nhit_loop s cs tracked_access [] = Inr (s, cs, tracked_access)"
| "nhit_loop s (tr, rh, rm, wh, wm, cm) tracked_access ((offset, operation) # rows) =
     (case nhit_request s offset of
        Inl e \<Rightarrow> Inl e
      | Inr (s', hit) \<Rightarrow>
          if hit then
            (if operation = ''Read'' then
               nhit_loop s' (tr + 1, rh + 1, rm, wh, wm, cm) tracked_access rows
             else nhit_loop s' (tr + 1, rh, rm, wh + 1, wm, cm) tracked_access rows)
          else
            nhit_loop s'
              (tr + 1, rh, (if operation = ''Read'' then rm + 1 else rm),
               wh, (if operation = ''Read'' then wm else wm + 1),
               (if offset \<notin> tracked_access then cm + 1 else cm))
              (insert offset tracked_access) rows)"

record NHitStats = Stats +
  Cold_Misses :: int

definition nhit_collect_statistics :: "int \<Rightarrow> int \<Rightarrow> int \<Rightarrow> int \<Rightarrow> int \<Rightarrow> NHitStats" where
  "nhit_collect_statistics reads read_misses writes write_misses cold_misses =
     (let total_requests = reads + writes;
          total_misses = read_misses + write_misses;
          total_hits = total_requests - total_misses;
          read_hits = reads - read_misses;
          write_hits = writes - write_misses
      in \<lparr>Read_Requests = reads, Read_Hits = read_hits, Read_Misses = read_misses,
          Write_Requests = writes, Write_Hits = write_hits, Write_Misses = write_misses,
          Total_Requests = total_requests, Total_Hits = total_hits,
          Total_Misses = total_misses, Cold_Misses = cold_misses\<rparr>)"

definition simulate_nhit :: "(int \<times> string) list \<Rightarrow> int \<Rightarrow> rat \<Rightarrow> int \<Rightarrow> py_error + (NHitCache \<times> NHitStats)" where
  "simulate_nhit rows csize trig ins =
     (case nhit_loop (NHitCache_init csize trig ins) (0, 0, 0, 0, 0, 0) {} rows of
        Inl e \<Rightarrow> Inl e
      | Inr (s, (tr, rh, rm, wh, wm, cm), ta) \<Rightarrow>
          Inr (s, nhit_collect_statistics (rh + rm) rm (wh + wm) wm cm))"

fun nhit_run :: "NHitCache \<Rightarrow> int list \<Rightarrow> py_error + (NHitCache \<times> bool list)" where
  "nhit_run s [] = Inr (s, [])"
| "nhit_run s (k # ks) =
     (case nhit_request s k of
        Inl e \<Rightarrow> Inl e
      | Inr (s', hit) \<Rightarrow>
          (case nhit_run s' ks of Inl e \<Rightarrow> Inl e | Inr (s'', hs) \<Rightarrow> Inr (s'', hit # hs)))"

section \<open>N-Hit with LRU eviction (LRU&N-Hit.py)\<close>

text \<open>
  The file's own \<open>LRUCache\<close> class (fields \<open>capacity\<close> and \<open>cache\<close>), named
  \<open>PromoLRU\<close> here to keep it apart from the class of policies/LRU.py.
\<close>

record PromoLRU =
  capacity :: int
  cache :: "int list"

definition PromoLRU_init :: "int \<Rightarrow> PromoLRU" where
  "PromoLRU_init c = \<lparr>capacity = c, cache = []\<rparr>"

definition is_present :: "PromoLRU \<Rightarrow> int \<Rightarrow> bool" where
  "is_present s k = (k \<in> set (PromoLRU.cache s))"

definition PromoLRU_access :: "PromoLRU \<Rightarrow> int \<Rightarrow> PromoLRU \<times> bool" where
  "PromoLRU_access s k =
     (if k \<notin> set (PromoLRU.cache s) then (s, False)
      else (s\<lparr>PromoLRU.cache := od_move_to_end k (PromoLRU.cache s)\<rparr>, True))"

definition PromoLRU_insert :: "PromoLRU \<Rightarrow> int \<Rightarrow> py_error + (PromoLRU \<times> int option)" where
  "PromoLRU_insert s k =
     (let s1 = (if k \<in> set (PromoLRU.cache s)
                then s\<lparr>PromoLRU.cache := od_move_to_end k (PromoLRU.cache s)\<rparr>
                else s\<lparr>PromoLRU.cache := od_setitem k (PromoLRU.cache s)\<rparr>)
      in if int (length (PromoLRU.cache s1)) > PromoLRU.capacity s1 then
           (case od_popitem_first (PromoLRU.cache s1) of
              Inl e \<Rightarrow> Inl e
            | Inr (evicted_key, rest) \<Rightarrow> Inr (s1\<lparr>PromoLRU.cache := rest\<rparr>, Some evicted_key))
         else Inr (s1, None))"

definition occupancy :: "PromoLRU \<Rightarrow> int" where
  "occupancy s = int (length (PromoLRU.cache s))"

text \<open>
  \<open>access_counts\<close> is a \<open>dict\<close> whose length is read (an association list);
  \<open>tracking_queue\<close> is a \<open>deque\<close>, oldest first. \<open>int(x)\<close> truncates towards zero.
  \<open>NHitPolicy_init\<close> takes \<open>tracking_ratio\<close> as an exact number, which gives the
  code's \<open>max_tracked_items\<close> for an int ratio such as the \<open>2\<close> that \<open>main\<close> passes;
  the constructor with a float ratio, rounded as binary64 does, is \<open>construct_NHitPolicy\<close>
  below.
\<close>

record NHitPolicy =
  trigger_threshold :: rat
  N :: int
  cache_capacity :: int
  max_tracked_items :: int
  access_counts :: "(int \<times> int) list"
  tracking_queue :: "int list"

definition py_int :: "rat \<Rightarrow> int" where
  "py_int x = (if x \<ge> 0 then \<lfloor>x\<rfloor> else \<lceil>x\<rceil>)"

definition NHitPolicy_init :: "int \<Rightarrow> rat \<Rightarrow> int \<Rightarrow> rat \<Rightarrow> NHitPolicy" where
  "NHitPolicy_init cap trig n tracking_ratio =
     \<lparr>trigger_threshold = trig, N = n, cache_capacity = cap,
      max_tracked_items = py_int (tracking_ratio * of_int cap),
      access_counts = [], tracking_queue = []\<rparr>"

definition NHitPolicy_should_promote :: "NHitPolicy \<Rightarrow> int \<Rightarrow> bool \<Rightarrow> int \<Rightarrow> py_error + bool" where
  "NHitPolicy_should_promote pol item is_cache_hit current_cache_occupancy =
     (if cache_capacity pol = 0 then Inl ZeroDivisionError
      else
        (let occupancy_percent = 100 * of_int current_cache_occupancy / of_int (cache_capacity pol)
         in if occupancy_percent \<le> NHitPolicy.trigger_threshold pol \<or> is_cache_hit then Inr True
            else Inr ((case map_of (access_counts pol) item of None \<Rightarrow> 0 | Some v \<Rightarrow> v)
                        \<ge> N pol)))"

definition record_access :: "NHitPolicy \<Rightarrow> int \<Rightarrow> py_error + NHitPolicy" where
  "record_access pol item =
     (case map_of (access_counts pol) item of
        Some v \<Rightarrow> Inr (pol\<lparr>access_counts := AList.update item (v + 1) (access_counts pol)\<rparr>)
      | None \<Rightarrow>
          (if int (length (access_counts pol)) \<ge> max_tracked_items pol then
             (case tracking_queue pol of
                [] \<Rightarrow> Inl IndexError
              | oldest_item # rest \<Rightarrow>
                  if oldest_item \<in> fst ` set (access_counts pol) then
                    Inr (pol\<lparr>access_counts :=
                               AList.update item 1 (AList.delete oldest_item (access_counts pol)),
                             tracking_queue := rest @ [item]\<rparr>)
                  else Inl KeyError)
           else Inr (pol\<lparr>access_counts := AList.update item 1 (access_counts pol),
                          tracking_queue := tracking_queue pol @ [item]\<rparr>)))"

definition remove_from_tracking :: "NHitPolicy \<Rightarrow> int \<Rightarrow> NHitPolicy" where
  "remove_from_tracking pol item =
     (if item \<in> fst ` set (access_counts pol) then
        pol\<lparr>access_counts := AList.delete item (access_counts pol),
            tracking_queue := remove1 item (tracking_queue pol)\<rparr>
      else pol)"

text \<open>
  What one iteration of the loop of \<open>simulate_nhit_lru\<close> does to the two engines for a
  row whose operation is \<open>'read'\<close> or \<open>'write'\<close> (the two branches have the same text),
  with the value of \<open>is_hit\<close>.
\<close>

definition nhit_lru_request :: "PromoLRU \<times> NHitPolicy \<Rightarrow> int \<Rightarrow> py_error + ((PromoLRU \<times> NHitPolicy) \<times> bool)" where
  "nhit_lru_request st item =
     (case st of (lru, pol) \<Rightarrow>
        (case record_access pol item of
           Inl e \<Rightarrow> Inl e
         | Inr pol1 \<Rightarrow>
             (let is_hit = is_present lru item in
              if is_hit then Inr ((fst (PromoLRU_access lru item), pol1), True)
              else
                (case NHitPolicy_should_promote pol1 item is_hit (occupancy lru) of
                   Inl e \<Rightarrow> Inl e
                 | Inr b \<Rightarrow>
                     if b then
                       (case PromoLRU_insert lru item of
                          Inl e \<Rightarrow> Inl e
                        | Inr (lru1, _) \<Rightarrow> Inr ((lru1, remove_from_tracking pol1 item), False))
                     else Inr ((lru, pol1), False)))))"

text \<open>
  The loop of \<open>simulate_nhit_lru\<close> with its counters \<open>(read_requests, write_requests,
  read_hits, write_hits)\<close>. A row is the pair of \<open>row.iloc[2]\<close> and \<open>row.iloc[4]\<close>;
  the second is \<open>Some s\<close> for a string \<open>s\<close> and \<open>None\<close> for a cell that is not a string
  (pandas gives a float for an empty cell), on which \<open>.strip()\<close> raises
  \<open>AttributeError\<close> and the loop goes on to the next row. \<open>operation_type\<close> is the
  cell stripped and in lower case. A row whose \<open>operation_type\<close> is neither \<open>'read'\<close>
  nor \<open>'write'\<close> still has its access recorded by \<open>record_access\<close>.
\<close>

type_synonym nhit_lru_counters = "int \<times> int \<times> int \<times> int"

fun nhit_lru_loop :: "PromoLRU \<times> NHitPolicy \<Rightarrow> nhit_lru_counters \<Rightarrow> (int \<times> string option) list \<Rightarrow> py_error + ((PromoLRU \<times> NHitPolicy) \<times> nhit_lru_counters)" where
  "nhit_lru_loop st cs [] = Inr (st, cs)"
| "nhit_lru_loop st cs ((item, None) # rows) = nhit_lru_loop st cs rows"
| "nhit_lru_loop st (rr, wr, rh, wh) ((item, Some cell) # rows) =
     (let operation_type = py_lower (py_strip cell)
      in if operation_type = ''read'' then
           (case nhit_lru_request st item of
              Inl e \<Rightarrow> Inl e
            | Inr (st', hit) \<Rightarrow>
                nhit_lru_loop st' (rr + 1, wr, (if hit then rh + 1 else rh), wh) rows)
         else if operation_type = ''write'' then
           (case nhit_lru_request st item of
              Inl e \<Rightarrow> Inl e
            | Inr (st', hit) \<Rightarrow>
                nhit_lru_loop st' (rr, wr + 1, rh, (if hit then wh + 1 else wh)) rows)
         else
           (case record_access (snd st) item of
              Inl e \<Rightarrow> Inl e
            | Inr pol1 \<Rightarrow> nhit_lru_loop (fst st, pol1) (rr, wr, rh, wh) rows))"

text \<open>The seven counts \<open>simulate_nhit_lru\<close> prints.\<close>

record NHitLRUStats =
  NL_Read_Requests :: int
  NL_Read_Hits :: int
  NL_Write_Requests :: int
  NL_Write_Hits :: int
  NL_Total_Requests :: int
  NL_Total_Hits :: int
  NL_Total_Misses :: int

definition nhit_lru_stats :: "nhit_lru_counters \<Rightarrow> NHitLRUStats" where
  "nhit_lru_stats cs = (case cs of (rr, wr, rh, wh) \<Rightarrow>
     (let total_requests = rr + wr; total_hits = rh + wh
      in \<lparr>NL_Read_Requests = rr, NL_Read_Hits = rh,
          NL_Write_Requests = wr, NL_Write_Hits = wh,
          NL_Total_Requests = total_requests, NL_Total_Hits = total_hits,
          NL_Total_Misses = total_requests - total_hits\<rparr>))"

definition simulate_nhit_lru :: "(int \<times> string option) list \<Rightarrow> int \<Rightarrow> rat \<Rightarrow> int \<Rightarrow> rat \<Rightarrow> py_error + ((PromoLRU \<times> NHitPolicy) \<times> NHitLRUStats)" where
  "simulate_nhit_lru rows csize trig n tracking_ratio =
     (case nhit_lru_loop (PromoLRU_init csize, NHitPolicy_init csize trig n tracking_ratio)
             (0, 0, 0, 0) rows of
        Inl e \<Rightarrow> Inl e
      | Inr (st, cs) \<Rightarrow> Inr (st, nhit_lru_stats cs))"

fun nhit_lru_run :: "PromoLRU \<times> NHitPolicy \<Rightarrow> int list \<Rightarrow> py_error + ((PromoLRU \<times> NHitPolicy) \<times> bool list)" where
  "nhit_lru_run st [] = Inr (st, [])"
| "nhit_lru_run st (k # ks) =
     (case nhit_lru_request st k of
        Inl e \<Rightarrow> Inl e
      | Inr (st', hit) \<Rightarrow>
          (case nhit_lru_run st' ks of Inl e \<Rightarrow> Inl e | Inr (st'', hs) \<Rightarrow> Inr (st'', hit # hs)))"

section \<open>Python numbers at construction\<close>

text \<open>
  Two constructors compute with floats: \<open>LARCCache.__init__\<close> evaluates
  \<open>0.1 * cache_size\<close> and \<open>NHitPolicy.__init__\<close> evaluates
  \<open>int(tracking_ratio * cache_capacity)\<close>. A float is a binary64 value: a rational, an
  infinity or NaN (the sign of a zero is not kept; nothing here depends on it).
  \<open>round_half_even\<close> rounds to the nearest integer, a tie to the even one. A positive
  rational is brought to the form \<open>m * 2 ^ e\<close> with \<open>2 ^ 52 \<le> m < 2 ^ 53\<close>, or with
  \<open>e = - 1074\<close> and \<open>m < 2 ^ 52\<close> for a subnormal number, and \<open>m\<close> is rounded:
  \<open>round_magnitude\<close> is the nearest binary64 value were the exponent unbounded above,
  \<open>round_finite\<close> gives it the sign, and \<open>round_binary64\<close> is an infinity when that
  value reaches \<open>2 ^ 1024\<close>.
\<close>

datatype py_float = Finite rat | PosInf | NegInf | NaN

definition round_half_even :: "rat \<Rightarrow> int" where
  "round_half_even x =
     (let f = \<lfloor>x\<rfloor>; d = x - of_int f
      in if d < 1 / 2 then f else if 1 / 2 < d then f + 1 else if even f then f else f + 1)"

definition pow2 :: "int \<Rightarrow> rat" where
  "pow2 e = (if 0 \<le> e then 2 ^ nat e else 1 / 2 ^ nat (- e))"

lemma norm_up_decreases: "(2::rat) ^ 53 \<le> m \<Longrightarrow> \<lfloor>m / 2\<rfloor> < \<lfloor>m\<rfloor>"
proof -
  assume a: "(2::rat) ^ 53 \<le> m"
  then have "m / 2 \<le> m - 1" by simp
  then have "\<lfloor>m / 2\<rfloor> \<le> \<lfloor>m - 1\<rfloor>" by (rule floor_mono)
  then show ?thesis by simp
qed

function norm_up :: "rat \<Rightarrow> int \<Rightarrow> rat \<times> int" where
  "norm_up m e = (if 2 ^ 53 \<le> m then norm_up (m / 2) (e + 1) else (m, e))"
  by pat_completeness auto
termination
  by (relation "measure (\<lambda>(m, e). nat \<lfloor>m\<rfloor>)") (simp_all add: norm_up_decreases)

function norm_down :: "rat \<Rightarrow> int \<Rightarrow> rat \<times> int" where
  "norm_down m e = (if m < 2 ^ 52 \<and> - 1074 < e then norm_down (2 * m) (e - 1) else (m, e))"
  by pat_completeness auto
termination
  by (relation "measure (\<lambda>(m, e). nat (e + 1074))") auto

declare norm_up.simps [simp del] norm_down.simps [simp del]

definition round_magnitude :: "rat \<Rightarrow> rat" where
  "round_magnitude a =
     (case norm_up a 0 of (m1, e1) \<Rightarrow>
        (case norm_down m1 e1 of (m, e) \<Rightarrow> of_int (round_half_even m) * pow2 e))"

definition round_finite :: "rat \<Rightarrow> rat" where
  "round_finite q =
     (if q = 0 then 0 else if 0 < q then round_magnitude q else - round_magnitude (- q))"

definition round_binary64 :: "rat \<Rightarrow> py_float" where
  "round_binary64 q =
     (let r = round_finite q
      in if 2 ^ 1024 \<le> \<bar>r\<bar> then (if 0 < q then PosInf else NegInf) else Finite r)"

text \<open>
  \<open>float_of_int n\<close> is the conversion of the int \<open>n\<close> to a float, as \<open>float(n)\<close> and as
  the int operand of a product with a float: it raises \<open>OverflowError\<close> when the rounded
  value is not finite. A product of floats is rounded, with NaN and the infinities as in
  IEEE 754. \<open>int(x)\<close> truncates towards zero and raises \<open>OverflowError\<close> on an
  infinity and \<open>ValueError\<close> on NaN. A number is an int or a float (\<open>tracking_ratio\<close> is
  the int \<open>2\<close> by default and in \<open>main\<close>); the product of two ints is exact.
  \<open>binary64_tenth\<close> is the float the literal \<open>0.1\<close> denotes.
\<close>

definition float_of_int :: "int \<Rightarrow> py_error + rat" where
  "float_of_int n = (case round_binary64 (of_int n) of Finite q \<Rightarrow> Inr q | _ \<Rightarrow> Inl OverflowError)"

fun float_sign :: "py_float \<Rightarrow> int" where
  "float_sign (Finite q) = (if q = 0 then 0 else if 0 < q then 1 else - 1)"
| "float_sign PosInf = 1"
| "float_sign NegInf = - 1"
| "float_sign NaN = 0"

fun float_mul :: "py_float \<Rightarrow> py_float \<Rightarrow> py_float" where
  "float_mul NaN y = NaN"
| "float_mul x NaN = NaN"
| "float_mul (Finite a) (Finite b) = round_binary64 (a * b)"
| "float_mul x y =
     (let s = float_sign x * float_sign y
      in if s = 0 then NaN else if 0 < s then PosInf else NegInf)"

definition int_of_float :: "py_float \<Rightarrow> py_error + int" where
  "int_of_float x =
     (case x of Finite q \<Rightarrow> Inr (py_int q) | NaN \<Rightarrow> Inl ValueError | _ \<Rightarrow> Inl OverflowError)"

datatype py_number = PyInt int | PyFloat py_float

definition number_times_int :: "py_number \<Rightarrow> int \<Rightarrow> py_error + py_number" where
  "number_times_int x n =
     (case x of
        PyInt r \<Rightarrow> Inr (PyInt (r * n))
      | PyFloat f \<Rightarrow>
          (case float_of_int n of Inl e \<Rightarrow> Inl e | Inr g \<Rightarrow> Inr (PyFloat (float_mul f (Finite g)))))"

definition int_of_number :: "py_number \<Rightarrow> py_error + int" where
  "int_of_number x = (case x of PyInt r \<Rightarrow> Inr r | PyFloat f \<Rightarrow> int_of_float f)"

definition binary64_tenth :: rat where
  "binary64_tenth = 3602879701896397 / 36028797018963968"

section \<open>Observations used by the properties\<close>

text \<open>
  The keys resident in the N-Hit cache (in insertion order) and the hit or miss of each
  request, after a run of the lowest-count engine from a fresh state.
\<close>

definition nhit_resident :: "int \<Rightarrow> rat \<Rightarrow> int \<Rightarrow> int list \<Rightarrow> py_error + (int list \<times> bool list)" where
  "nhit_resident c trig ins ks =
     (case nhit_run (NHitCache_init c trig ins) ks of
        Inl e \<Rightarrow> Inl e
      | Inr (s, hs) \<Rightarrow> Inr (map fst (NHitCache.cache s), hs))"

text \<open>
  A constructor call runs the class's \<open>__init__\<close> and returns the object, or raises.
  Every \<open>__init__\<close> of the sources consists of assignments only: no parameter is
  compared with anything and no \<open>raise\<close> statement occurs. Two of them compute a
  float, \<open>0.1 * cache_size\<close> in \<open>LARCCache\<close> and \<open>int(tracking_ratio * cache_capacity)\<close>
  in \<open>NHitPolicy\<close>; these are followed in binary64 here (the engine sections above take
  the same numbers as exact rationals), and the conversions in them can raise. The
  product of \<open>0.1\<close> and a finite float is finite, so \<open>LARCCache\<close> stores its rounded
  value.
\<close>

definition construct_LRUCache :: "int \<Rightarrow> py_error + LRUCache" where
  "construct_LRUCache c = Inr (LRUCache_init c)"

definition construct_OptimalCache :: "int \<Rightarrow> py_error + OptimalCache" where
  "construct_OptimalCache c = Inr (OptimalCache_init c)"

definition construct_ARCCache :: "int \<Rightarrow> py_error + ARCCache" where
  "construct_ARCCache c = Inr (ARCCache_init c)"

definition construct_NHitCache :: "int \<Rightarrow> rat \<Rightarrow> int \<Rightarrow> py_error + NHitCache" where
  "construct_NHitCache c trig ins = Inr (NHitCache_init c trig ins)"

definition construct_LARCCache :: "int \<Rightarrow> py_error + LARCCache" where
  "construct_LARCCache csize =
     (case float_of_int csize of
        Inl e \<Rightarrow> Inl e
      | Inr g \<Rightarrow>
          Inr \<lparr>LARCCache.cache_size = csize, LARCCache.cache = [], recent_cache = [],
               recent_cache_limit = round_finite (binary64_tenth * g)\<rparr>)"

definition construct_PromoLRU :: "int \<Rightarrow> py_error + PromoLRU" where
  "construct_PromoLRU c = Inr (PromoLRU_init c)"

definition construct_NHitPolicy :: "int \<Rightarrow> rat \<Rightarrow> int \<Rightarrow> py_number \<Rightarrow> py_error + NHitPolicy" where
  "construct_NHitPolicy cap trig n tracking_ratio =
     (case number_times_int tracking_ratio cap of
        Inl e \<Rightarrow> Inl e
      | Inr product \<Rightarrow>
          (case int_of_number product of
             Inl e \<Rightarrow> Inl e
           | Inr tracked \<Rightarrow>
               Inr \<lparr>trigger_threshold = trig, N = n, cache_capacity = cap,
                    max_tracked_items = tracked, access_counts = [], tracking_queue = []\<rparr>))"

text \<open>
  The trace seen from a position: \<open>first_pos y fut\<close> is the index of the first
  occurrence of \<open>y\<close> in \<open>fut\<close> (the length of \<open>fut\<close> when there is none);
  \<open>nu_of i fut y\<close> is the next-use value of \<open>y\<close> when \<open>fut\<close> is the part of the trace
  from position \<open>i\<close> on; \<open>annotate i fut\<close> pairs each key of \<open>fut\<close> with the next-use
  value of that key after its own position.
\<close>

fun first_pos :: "int \<Rightarrow> int list \<Rightarrow> nat" where
  "first_pos y [] = 0"
| "first_pos y (x # xs) = (if x = y then 0 else Suc (first_pos y xs))"

definition nu_of :: "nat \<Rightarrow> int list \<Rightarrow> int \<Rightarrow> nextuse" where
  "nu_of i fut y = (if y \<in> set fut then Fin (int (i + first_pos y fut)) else INFINITY)"

fun annotate :: "nat \<Rightarrow> int list \<Rightarrow> (int \<times> nextuse) list" where
  "annotate i [] = []"
| "annotate i (x # fut) = (x, nu_of (Suc i) fut x) # annotate (Suc i) fut"

text \<open>The invariant of the reverse pass of \<open>precompute_next_use\<close> before position \<open>k - 1\<close>.\<close>

definition pre_inv :: "int list \<Rightarrow> nat \<Rightarrow> nextuse list \<Rightarrow> (int \<rightharpoonup> nat) \<Rightarrow> bool" where
  "pre_inv ks k nu lo \<longleftrightarrow>
     k \<le> length ks \<and> length nu = length ks
     \<and> (\<forall>i. k \<le> i \<and> i < length ks \<longrightarrow> nu ! i = nu_of (Suc i) (drop (Suc i) ks) (ks ! i))
     \<and> (\<forall>i < k. nu ! i = INFINITY)
     \<and> (\<forall>y. lo y = (if y \<in> set (drop k ks) then Some (k + first_pos y (drop k ks)) else None))"

text \<open>
  The tuple order of the heap entries, read through a key in a linear order:
  \<open>entry_less e1 e2\<close> holds exactly when the key of \<open>e1\<close> is below the key of \<open>e2\<close>.
\<close>

definition entry_key :: "heap_entry \<Rightarrow> int \<times> int \<times> int" where
  "entry_key e = (case fst e of INFINITY \<Rightarrow> (0, 0, snd e) | Fin a \<Rightarrow> (1, - a, snd e))"

text \<open>
  The heap covers the cache: every resident page has a recorded next use, and the heap
  holds the entry of that page with that next use.
\<close>

definition heap_covers :: "OptimalCache \<Rightarrow> bool" where
  "heap_covers s \<longleftrightarrow>
     (\<forall>y \<in> OptimalCache.cache s. \<exists>nu. page_next_use s y = Some nu \<and> (nu, y) \<in> set (heap s))"

definition opt_inv :: "OptimalCache \<Rightarrow> bool" where
  "opt_inv s \<longleftrightarrow> finite (OptimalCache.cache s) \<and> heap_covers s"

text \<open>
  The policies that OPT is compared with: \<open>reach c C fut n\<close> says that some policy
  which holds at most \<open>c\<close> keys, starts from the resident set \<open>C\<close>, brings in every
  requested key and never brings in another one, serves \<open>fut\<close> with at most \<open>n\<close> misses.
\<close>

inductive reach :: "int \<Rightarrow> int set \<Rightarrow> int list \<Rightarrow> nat \<Rightarrow> bool" for c :: int where
  reach_Nil: "reach c C [] n"
| reach_Cons: "x \<in> D \<Longrightarrow> D \<subseteq> insert x C \<Longrightarrow> finite D \<Longrightarrow> int (card D) \<le> c
     \<Longrightarrow> reach c D fut m \<Longrightarrow> m + (if x \<in> C then 0 else 1) \<le> n \<Longrightarrow> reach c C (x # fut) n"

inductive_cases reach_ConsE: "reach c C (x # fut) n"

text \<open>The numbers of misses and of hits in a list of outcomes.\<close>

definition misses_in :: "bool list \<Rightarrow> nat" where
  "misses_in hs = length (filter (\<lambda>h. \<not> h) hs)"

definition hits_in :: "bool list \<Rightarrow> nat" where
  "hits_in hs = length (filter (\<lambda>h. h) hs)"

text \<open>
  The OPT engine is in step with the trace at position \<open>i\<close>, whose remaining part is
  \<open>fut\<close>: the recorded next use of every resident page is its next use in the trace.
\<close>

definition opt_sync :: "OptimalCache \<Rightarrow> nat \<Rightarrow> int list \<Rightarrow> bool" where
  "opt_sync s i fut \<longleftrightarrow>
     opt_inv s \<and> 0 < OptimalCache.capacity s
     \<and> int (card (OptimalCache.cache s)) \<le> OptimalCache.capacity s
     \<and> (\<forall>y \<in> OptimalCache.cache s. page_next_use s y = Some (nu_of i fut y))"

text \<open>The LRU dictionary has distinct keys and at most \<open>max_capacity\<close> of them.\<close>

definition lru_inv :: "LRUCache \<Rightarrow> bool" where
  "lru_inv s \<longleftrightarrow> distinct (cache_store s) \<and> int (length (cache_store s)) \<le> max_capacity s"

text \<open>
  The total hit count each driver reports for a list of keys, all read (\<open>None\<close> when the
  driver does not return a count).
\<close>

definition reads :: "string \<Rightarrow> int list \<Rightarrow> (int \<times> string) list" where
  "reads operation ks = map (\<lambda>k. (k, operation)) ks"

text \<open>Rows whose operation cells are all strings, as \<open>simulate_nhit_lru\<close> reads them.\<close>

definition string_cells :: "(int \<times> string) list \<Rightarrow> (int \<times> string option) list" where
  "string_cells rows = map (\<lambda>(k, operation). (k, Some operation)) rows"

definition opt_total_hits :: "int \<Rightarrow> int list \<Rightarrow> int option" where
  "opt_total_hits c ks =
     (case CacheSimulator_simulate c (reads ''read'' ks) (precompute_next_use (reads ''read'' ks)) of
        Inl e \<Rightarrow> None | Inr (s, st) \<Rightarrow> Some (Total_Hits st))"

definition lru_total_hits :: "int \<Rightarrow> int list \<Rightarrow> int option" where
  "lru_total_hits c ks =
     (case simulate_lru_policy (LRUCache_init c) (reads ''Read'' ks) of
        Inl e \<Rightarrow> None | Inr (s, st) \<Rightarrow> Some (Total_Hits st))"

definition arc_total_hits :: "int \<Rightarrow> int list \<Rightarrow> int option" where
  "arc_total_hits c ks =
     (case ARCCache_simulate (ARCCache_init c) (reads ''Read'' ks) of
        None \<Rightarrow> None | Some (s, st) \<Rightarrow> Some (Total_Hits st))"

definition larc_total_hits :: "int \<Rightarrow> int list \<Rightarrow> int option" where
  "larc_total_hits c ks =
     (case LARCCache_simulate (LARCCache_init c) (reads ''Read'' ks) of
        Inl e \<Rightarrow> None | Inr (s, st) \<Rightarrow> Some (Total_Hits st))"

definition nhit_total_hits :: "int \<Rightarrow> rat \<Rightarrow> int \<Rightarrow> int list \<Rightarrow> int option" where
  "nhit_total_hits c trig ins ks =
     (case simulate_nhit (reads ''Read'' ks) c trig ins of
        Inl e \<Rightarrow> None | Inr (s, st) \<Rightarrow> Some (Total_Hits st))"

definition nhit_lru_total_hits :: "int \<Rightarrow> rat \<Rightarrow> int \<Rightarrow> rat \<Rightarrow> int list \<Rightarrow> int option" where
  "nhit_lru_total_hits c trig n ratio ks =
     (case simulate_nhit_lru (string_cells (reads ''read'' ks)) c trig n ratio of
        Inl e \<Rightarrow> None | Inr (s, st) \<Rightarrow> Some (NL_Total_Hits st))"

text \<open>
  A trace on which LARC with capacity 10 beats OPT: ten keys requested twice each, then
  eleven rounds of one new key followed by the ten keys.
\<close>

definition larc_trace :: "int list" where
  "larc_trace = concat (map (\<lambda>k. [k, k]) [1..10]) @ concat (map (\<lambda>r. (100 + r) # [1..10]) [1..11])"

text \<open>
  A state whose heap holds two stale entries (an old next use of the resident page 1, and
  an entry of page 7, which is not resident) before the entry that is valid.
\<close>

definition stale_state :: OptimalCache where
  "stale_state = \<lparr>OptimalCache.capacity = 1, OptimalCache.cache = {1},
     heap = [(Fin 5, 1), (INFINITY, 1), (INFINITY, 7)],
     page_next_use = [1 \<mapsto> Fin 5], seen_pages = {}\<rparr>"

text \<open>
  The four ARC lists as one: their keys are pairwise different exactly when each list
  has distinct keys and no two lists share a key.
\<close>

definition arc_keys :: "ARCCache \<Rightarrow> int list" where
  "arc_keys s = T1 s @ T2 s @ B1 s @ B2 s"

text \<open>
  \<open>arc_pre\<close> holds between the transition of \<open>process_request\<close> and its first loop,
  \<open>arc_mid\<close> between the two loops, and \<open>arc_inv\<close> after a call.
\<close>

definition arc_pre :: "ARCCache \<Rightarrow> bool" where
  "arc_pre s \<longleftrightarrow> 0 < ARCCache.cache_size s \<and> distinct (arc_keys s)
     \<and> int (length (T1 s)) + int (length (T2 s)) \<le> ARCCache.cache_size s + 1
     \<and> int (length (arc_keys s)) \<le> 2 * ARCCache.cache_size s + 1
     \<and> 0 \<le> p s \<and> p s \<le> ARCCache.cache_size s"

definition arc_mid :: "ARCCache \<Rightarrow> bool" where
  "arc_mid s \<longleftrightarrow> 0 < ARCCache.cache_size s \<and> distinct (arc_keys s)
     \<and> int (length (T1 s)) + int (length (T2 s)) \<le> ARCCache.cache_size s
     \<and> int (length (arc_keys s)) \<le> 2 * ARCCache.cache_size s + 1
     \<and> 0 \<le> p s \<and> p s \<le> ARCCache.cache_size s"

definition arc_inv :: "ARCCache \<Rightarrow> bool" where
  "arc_inv s \<longleftrightarrow> 0 < ARCCache.cache_size s \<and> distinct (arc_keys s)
     \<and> int (length (T1 s)) + int (length (T2 s)) \<le> ARCCache.cache_size s
     \<and> int (length (arc_keys s)) \<le> 2 * ARCCache.cache_size s
     \<and> 0 \<le> p s \<and> p s \<le> ARCCache.cache_size s"

text \<open>
  The state an ARC engine of capacity \<open>c\<close> reaches on the keys \<open>ks\<close>, and the value of
  \<open>p\<close> that C3 states for an access to a key in \<open>B1\<close> and in \<open>B2\<close>: the claim's words,
  with a ceiling division of the two ghost-list lengths.
\<close>

definition arc_state_after :: "int \<Rightarrow> int list \<Rightarrow> ARCCache option" where
  "arc_state_after c ks = map_option fst (arc_run (ARCCache_init c) ks)"

definition claimed_p_on_B1 :: "int \<Rightarrow> int \<Rightarrow> nat \<Rightarrow> nat \<Rightarrow> int" where
  "claimed_p_on_B1 c p0 b1 b2 =
     min c (p0 + max 1 \<lceil>rat_of_int (int b2) / rat_of_int (max 1 (int b1))\<rceil>)"

definition claimed_p_on_B2 :: "int \<Rightarrow> int \<Rightarrow> nat \<Rightarrow> nat \<Rightarrow> int" where
  "claimed_p_on_B2 c p0 b1 b2 =
     max 0 (p0 - max 1 \<lceil>rat_of_int (int b1) / rat_of_int (max 1 (int b2))\<rceil>)"

text \<open>
  What holds of a LARC engine after every call: both dictionaries have distinct keys,
  the cache holds at most \<open>cache_size\<close> keys, the limit lies between a tenth and nine
  tenths of the cache size, and the filter holds at most nine tenths of it.
\<close>

definition larc_inv :: "LARCCache \<Rightarrow> bool" where
  "larc_inv s \<longleftrightarrow> 0 < LARCCache.cache_size s
     \<and> distinct (LARCCache.cache s) \<and> distinct (recent_cache s)
     \<and> int (length (LARCCache.cache s)) \<le> LARCCache.cache_size s
     \<and> (1 / 10) * of_int (LARCCache.cache_size s) \<le> recent_cache_limit s
     \<and> recent_cache_limit s \<le> (9 / 10) * of_int (LARCCache.cache_size s)
     \<and> of_int (int (length (recent_cache s))) \<le> (9 / 10) * rat_of_int (LARCCache.cache_size s)"

text \<open>The state a LARC engine of capacity \<open>c\<close> reaches on the keys \<open>ks\<close>.\<close>

definition larc_state_after :: "int \<Rightarrow> int list \<Rightarrow> py_error + LARCCache" where
  "larc_state_after c ks = map_sum id fst (larc_run (LARCCache_init c) ks)"




text \<open>
  What a run of a driver shows of the requests as a whole: the state of the engine at
  the end and the three totals of the statistics (for the lowest-count N-Hit driver also
  the cold misses). An exception is kept as it is.
\<close>

definition totals :: "'a Stats_scheme \<Rightarrow> int \<times> int \<times> int" where
  "totals st = (Total_Requests st, Total_Hits st, Total_Misses st)"

definition lru_observe :: "LRUCache \<Rightarrow> (int \<times> string) list \<Rightarrow> py_error + (LRUCache \<times> int \<times> int \<times> int)" where
  "lru_observe s rows = map_sum id (\<lambda>(s', st). (s', totals st)) (simulate_lru_policy s rows)"

definition opt_observe :: "int \<Rightarrow> (int \<times> string) list \<Rightarrow> py_error + (OptimalCache \<times> int \<times> int \<times> int)" where
  "opt_observe c rows =
     map_sum id (\<lambda>(s', st). (s', totals st))
       (CacheSimulator_simulate c rows (precompute_next_use rows))"

text \<open>
  The Belady loop after the first \<open>i\<close> requests of \<open>rows\<close>, run with the next-use array of
  the whole of \<open>rows\<close>: the state and the counters \<open>total_hits\<close> and \<open>total_misses\<close>.
\<close>

definition opt_observe_prefix :: "int \<Rightarrow> nat \<Rightarrow> (int \<times> string) list \<Rightarrow> py_error + (OptimalCache \<times> int \<times> int)" where
  "opt_observe_prefix c i rows =
     map_sum id (\<lambda>(s', (th, tm, rh, rm, wh, wm)). (s', th, tm))
       (belady_loop (OptimalCache_init c) (0, 0, 0, 0, 0, 0) (take i rows)
          (precompute_next_use rows))"

definition arc_observe :: "ARCCache \<Rightarrow> (int \<times> string) list \<Rightarrow> (ARCCache \<times> int \<times> int \<times> int) option" where
  "arc_observe s rows = map_option (\<lambda>(s', st). (s', totals st)) (ARCCache_simulate s rows)"

definition larc_observe :: "LARCCache \<Rightarrow> (int \<times> string) list \<Rightarrow> py_error + (LARCCache \<times> int \<times> int \<times> int)" where
  "larc_observe s rows = map_sum id (\<lambda>(s', st). (s', totals st)) (LARCCache_simulate s rows)"

definition nhit_observe :: "(int \<times> string) list \<Rightarrow> int \<Rightarrow> rat \<Rightarrow> int \<Rightarrow> py_error + (NHitCache \<times> (int \<times> int \<times> int) \<times> int)" where
  "nhit_observe rows c trig ins =
     map_sum id (\<lambda>(s', st). (s', totals st, Cold_Misses st)) (simulate_nhit rows c trig ins)"

definition nhit_lru_observe :: "(int \<times> string) list \<Rightarrow> int \<Rightarrow> rat \<Rightarrow> int \<Rightarrow> rat \<Rightarrow> py_error + ((PromoLRU \<times> NHitPolicy) \<times> int \<times> int \<times> int)" where
  "nhit_lru_observe rows c trig n ratio =
     map_sum id (\<lambda>(st', st). (st', NL_Total_Requests st, NL_Total_Hits st, NL_Total_Misses st))
       (simulate_nhit_lru (string_cells rows) c trig n ratio)"

text \<open>
  The cold misses and the set \<open>tracked_access\<close> of \<open>simulate_nhit\<close> after requests for
  the keys \<open>ks\<close> with the outcomes \<open>hs\<close>.
\<close>

fun cold_tally :: "int \<times> int set \<Rightarrow> int list \<Rightarrow> bool list \<Rightarrow> int \<times> int set" where
  "cold_tally (cm, ta) (k # ks) (h # hs) =
     cold_tally (if h then (cm, ta) else ((if k \<notin> ta then cm + 1 else cm), insert k ta)) ks hs"
| "cold_tally a ks hs = a"

section \<open>Proved properties\<close>

lemmas nhit_defs = nhit_resident_def NHitCache_init_def nhit_request_def should_promote_def
  NHitCache_access_def promote_def NHitCache_evict_def dd_getitem_def

subsection \<open>C8: the N-Hit scenario S5\<close>

text \<open>
  C8, as the claim states it, fails: with capacity 2, \<open>trigger_threshold = 0\<close> and
  \<open>insertion_threshold = 3\<close>, the first access to A already promotes it, because the
  empty cache has occupancy 0 percent and \<open>should_promote\<close> tests
  \<open>occupancy_percent <= trigger_threshold\<close>. The second access to A is therefore a Hit.
\<close>

theorem nhit_S5_first_access_promotes:
  "nhit_resident 2 0 3 [1] = Inr ([1], [False])
   \<and> nhit_resident 2 0 3 [1, 1] = Inr ([1], [False, True])"
  by (simp add: nhit_defs)

text \<open>
  C8, amended: on the key sequence A,A,A,B,B,B,C,C,A (any three distinct keys) the engine
  promotes A on its first access and serves A's second and third accesses as Hits; B is
  promoted exactly on its third access, with A still resident (nothing is evicted); C is
  never promoted; the final access to A is a Hit and the cache holds exactly A and B.
\<close>

theorem nhit_S5_scenario:
  assumes "a \<noteq> b" and "a \<noteq> c" and "b \<noteq> c"
  shows "nhit_resident 2 0 3 [a] = Inr ([a], [False])
    \<and> nhit_resident 2 0 3 [a, a, a] = Inr ([a], [False, True, True])
    \<and> nhit_resident 2 0 3 [a, a, a, b, b] = Inr ([a], [False, True, True, False, False])
    \<and> nhit_resident 2 0 3 [a, a, a, b, b, b]
           = Inr ([a, b], [False, True, True, False, False, False])
    \<and> nhit_resident 2 0 3 [a, a, a, b, b, b, c, c]
           = Inr ([a, b], [False, True, True, False, False, False, False, False])
    \<and> nhit_resident 2 0 3 [a, a, a, b, b, b, c, c, a]
           = Inr ([a, b], [False, True, True, False, False, False, False, False, True])"
  using assms by (simp add: nhit_defs)

theorem nhit_S5_scenario_witness:
  "(1::int) \<noteq> 2 \<and> (1::int) \<noteq> 3 \<and> (2::int) \<noteq> 3
   \<and> nhit_resident 2 0 3 [1, 1, 1, 2, 2, 2, 3, 3, 1]
         = Inr ([1, 2], [False, True, True, False, False, False, False, False, True])"
  using nhit_S5_scenario[of 1 2 3] by simp

subsection \<open>C9: invalid parameters at construction\<close>

text \<open>
  C9, as the claim states it, fails: a capacity of 0 and a trigger threshold of 150 are
  accepted. The ARC engine built with capacity 0 serves requests (all misses), and so
  does the N-Hit engine built with threshold 150.
\<close>

theorem construct_accepts_invalid:
  "construct_ARCCache 0 = Inr (ARCCache_init 0)
   \<and> arc_run (ARCCache_init 0) [1, 2] = Some (ARCCache_init 0, [False, False])
   \<and> construct_LRUCache 0 = Inr \<lparr>max_capacity = 0, cache_store = []\<rparr>
   \<and> construct_NHitCache 2 150 2 = Inr (NHitCache_init 2 150 2)
   \<and> nhit_resident 2 150 2 [1, 1] = Inr ([1], [False, True])"
  by (simp add: construct_ARCCache_def construct_LRUCache_def construct_NHitCache_def
      LRUCache_init_def ARCCache_init_def ARCCache_process_request_def od_setitem_def
      arc_balance.simps arc_trim.simps nhit_defs)

lemma pow2_pos: "0 < pow2 e"
  by (simp add: pow2_def)

lemma pow2_Suc: "pow2 (e + 1) = 2 * pow2 e"
proof (cases "0 \<le> e")
  case True
  then show ?thesis by (simp add: pow2_def nat_add_distrib)
next
  case False
  then have "nat (- e) = Suc (nat (- (e + 1)))" by simp
  then show ?thesis using False by (simp add: pow2_def)
qed

lemma pow2_pred: "2 * pow2 (e - 1) = pow2 e"
  using pow2_Suc[of "e - 1"] by simp

lemma pow2_nat: "pow2 (int k) = 2 ^ k"
  by (simp add: pow2_def)

lemma pow2_mono: "e \<le> e' \<Longrightarrow> pow2 e \<le> pow2 e'"
proof -
  assume "e \<le> e'"
  then obtain k where k: "e' = e + int k" by (metis zle_iff_zadd)
  have "pow2 e \<le> pow2 (e + int k)"
  proof (induction k)
    case 0
    then show ?case by simp
  next
    case (Suc k)
    have "e + int (Suc k) = e + int k + 1" by simp
    then have "pow2 (e + int (Suc k)) = 2 * pow2 (e + int k)"
      by (simp only: pow2_Suc)
    then show ?case using Suc pow2_pos[of "e + int k"] by linarith
  qed
  then show ?thesis using k by simp
qed

lemma norm_up_spec:
  "norm_up m e = (m', e') \<Longrightarrow>
     m' * pow2 e' = m * pow2 e \<and> m' < 2 ^ 53 \<and> e \<le> e'
     \<and> (2 ^ 53 \<le> m \<longrightarrow> 2 ^ 52 \<le> m') \<and> (m < 2 ^ 53 \<longrightarrow> m' = m \<and> e' = e)"
proof (induction m e rule: norm_up.induct)
  case (1 m e)
  show ?case
  proof (cases "2 ^ 53 \<le> m")
    case True
    then have r: "norm_up (m / 2) (e + 1) = (m', e')"
      using "1.prems" by (subst (asm) norm_up.simps) simp
    from "1.IH"[OF True r]
    have ih: "m' * pow2 e' = m / 2 * pow2 (e + 1)" "m' < 2 ^ 53" "e + 1 \<le> e'"
      "2 ^ 53 \<le> m / 2 \<longrightarrow> 2 ^ 52 \<le> m'" "m / 2 < 2 ^ 53 \<longrightarrow> m' = m / 2 \<and> e' = e + 1"
      by simp_all
    have "m' * pow2 e' = m * pow2 e" using ih(1) by (simp add: pow2_Suc)
    moreover have "2 ^ 52 \<le> m'"
    proof (cases "2 ^ 53 \<le> m / 2")
      case True
      then show ?thesis using ih(4) by simp
    next
      case False
      then have "m' = m / 2" using ih(5) by simp
      then show ?thesis using True by simp
    qed
    ultimately show ?thesis using ih(2,3) True by simp
  next
    case False
    then have "(m', e') = (m, e)" using "1.prems" by (subst (asm) norm_up.simps) simp
    then show ?thesis using False by simp
  qed
qed

lemma norm_down_spec:
  "norm_down m e = (m', e') \<Longrightarrow>
     m' * pow2 e' = m * pow2 e \<and> e' \<le> e
     \<and> (m < 2 ^ 53 \<longrightarrow> m' < 2 ^ 53) \<and> (2 ^ 52 \<le> m \<longrightarrow> m' = m \<and> e' = e)
     \<and> (- 1074 \<le> e \<longrightarrow> - 1074 \<le> e') \<and> (m' < 2 ^ 52 \<longrightarrow> e' \<le> - 1074)
     \<and> (0 < m \<longrightarrow> 0 < m') \<and> (m \<in> \<int> \<longrightarrow> m' \<in> \<int>)"
proof (induction m e rule: norm_down.induct)
  case (1 m e)
  show ?case
  proof (cases "m < 2 ^ 52 \<and> - 1074 < e")
    case True
    then have r: "norm_down (2 * m) (e - 1) = (m', e')"
      using "1.prems" by (subst (asm) norm_down.simps) simp
    from "1.IH"[OF True r]
    have ih: "m' * pow2 e' = 2 * m * pow2 (e - 1)" "e' \<le> e - 1"
      "2 * m < 2 ^ 53 \<longrightarrow> m' < 2 ^ 53" "- 1074 \<le> e - 1 \<longrightarrow> - 1074 \<le> e'"
      "m' < 2 ^ 52 \<longrightarrow> e' \<le> - 1074" "0 < 2 * m \<longrightarrow> 0 < m'" "2 * m \<in> \<int> \<longrightarrow> m' \<in> \<int>"
      by simp_all
    have "m \<in> \<int> \<longrightarrow> 2 * m \<in> \<int>" by simp
    have "m' * pow2 e' = m * pow2 e" using ih(1) pow2_pred[of e] by simp
    moreover have "m \<in> \<int> \<longrightarrow> m' \<in> \<int>" using ih(7) by simp
    ultimately show ?thesis using ih(2-6) True by simp
  next
    case False
    then have "(m', e') = (m, e)" using "1.prems" by (subst (asm) norm_down.simps) auto
    then show ?thesis using False by auto
  qed
qed

lemma norm_spec:
  assumes a: "0 < a" and n1: "norm_up a 0 = (m1, e1)" and n2: "norm_down m1 e1 = (m, e)"
  shows "m * pow2 e = a" and "0 < m" and "m < 2 ^ 53" and "- 1074 \<le> e"
    and "2 ^ 52 \<le> m \<or> e = - 1074"
proof -
  have "pow2 0 = 1" by (simp add: pow2_def)
  with norm_up_spec[OF n1]
  have u: "m1 * pow2 e1 = a" "m1 < 2 ^ 53" "0 \<le> e1" by simp_all
  have m1pos: "0 < m1"
  proof (rule ccontr)
    assume "\<not> 0 < m1"
    then have "m1 * pow2 e1 \<le> 0" using pow2_pos[of e1] by (simp add: mult_le_0_iff)
    then show False using u(1) a by simp
  qed
  from norm_down_spec[OF n2]
  have d: "m * pow2 e = m1 * pow2 e1" "m1 < 2 ^ 53 \<longrightarrow> m < 2 ^ 53"
    "- 1074 \<le> e1 \<longrightarrow> - 1074 \<le> e" "m < 2 ^ 52 \<longrightarrow> e \<le> - 1074" "0 < m1 \<longrightarrow> 0 < m"
    by simp_all
  show "m * pow2 e = a" using d(1) u(1) by simp
  show "0 < m" using d(5) m1pos by simp
  show "m < 2 ^ 53" using d(2) u(2) by simp
  show e: "- 1074 \<le> e" using d(3) u(3) by simp
  show "2 ^ 52 \<le> m \<or> e = - 1074" using d(4) e by force
qed


lemma round_half_even_floor: "\<lfloor>x\<rfloor> \<le> round_half_even x"
  by (simp add: round_half_even_def Let_def)

lemma round_half_even_below: "x < of_int K - 1 / 2 \<Longrightarrow> round_half_even x \<le> K - 1"
proof -
  assume a: "x < of_int K - 1 / 2"
  have f: "of_int \<lfloor>x\<rfloor> \<le> x" by simp
  show ?thesis
  proof (cases "x - of_int \<lfloor>x\<rfloor> < 1 / 2")
    case True
    then have "round_half_even x = \<lfloor>x\<rfloor>" by (simp add: round_half_even_def Let_def)
    moreover have "(of_int \<lfloor>x\<rfloor> :: rat) < of_int K" using a f by linarith
    then have "\<lfloor>x\<rfloor> < K" by (simp only: of_int_less_iff)
    ultimately show ?thesis by simp
  next
    case False
    then have "round_half_even x \<le> \<lfloor>x\<rfloor> + 1" by (simp add: round_half_even_def Let_def)
    moreover have "(of_int \<lfloor>x\<rfloor> :: rat) + 1 < of_int K" using a False by linarith
    then have "(of_int (\<lfloor>x\<rfloor> + 1) :: rat) < of_int K" by simp
    then have "\<lfloor>x\<rfloor> + 1 < K" by (simp only: of_int_less_iff)
    ultimately show ?thesis by simp
  qed
qed

lemma round_half_even_int: "x \<in> \<int> \<Longrightarrow> of_int (round_half_even x) = x"
  by (auto simp: round_half_even_def Let_def elim!: Ints_cases)

lemma round_half_even_top:
  assumes "2 ^ 53 - 1 / 2 \<le> x" and "x < 2 ^ 53"
  shows "round_half_even x = 2 ^ 53"
proof -
  have "\<lfloor>x\<rfloor> = 2 ^ 53 - 1"
    using assms by (simp add: floor_eq_iff)
  moreover have "\<not> x - of_int (2 ^ 53 - 1 :: int) < 1 / 2" using assms by simp
  moreover have "odd (2 ^ 53 - 1 :: int)" by simp
  ultimately show ?thesis by (simp add: round_half_even_def Let_def)
qed

lemma round_magnitude_small:
  assumes a: "0 < a" and b: "a < 2 ^ 1024 - 2 ^ 970"
  shows "0 \<le> round_magnitude a \<and> round_magnitude a < 2 ^ 1024"
proof -
  obtain m1 e1 where n1: "norm_up a 0 = (m1, e1)" by (cases "norm_up a 0")
  obtain m e where n2: "norm_down m1 e1 = (m, e)" by (cases "norm_down m1 e1")
  note sp = norm_spec[OF a n1 n2]
  have r: "round_magnitude a = of_int (round_half_even m) * pow2 e"
    by (simp add: round_magnitude_def n1 n2)
  have fl: "0 \<le> \<lfloor>m\<rfloor>" using sp(2) by simp
  then have "0 \<le> round_half_even m"
    using round_half_even_floor[of m] by linarith
  then have nn: "(0::rat) \<le> of_int (round_half_even m)" by simp
  then have lo: "0 \<le> round_magnitude a" using pow2_pos[of e] by (simp add: r)
  have "m < of_int (2 ^ 53 + 1) - 1 / 2" using sp(3) by simp
  from round_half_even_below[OF this]
  have top: "(of_int (round_half_even m) :: rat) \<le> 2 ^ 53"
    by (metis add_diff_cancel_right' of_int_le_iff of_int_numeral of_int_power)
  have "round_magnitude a < 2 ^ 1024"
  proof (cases "e \<le> 970")
    case True
    then have "pow2 e \<le> pow2 970" by (rule pow2_mono)
    then have "pow2 e \<le> 2 ^ 970" by (simp add: pow2_def)
    with top nn have "of_int (round_half_even m) * pow2 e \<le> 2 ^ 53 * 2 ^ 970"
      using pow2_pos[of e] by (intro mult_mono) simp_all
    then show ?thesis by (simp add: r)
  next
    case False
    then have m52: "2 ^ 52 \<le> m" using sp(5) by auto
    have e971: "e = 971"
    proof (rule ccontr)
      assume "e \<noteq> 971"
      then have "972 \<le> e" using False by simp
      then have "pow2 972 \<le> pow2 e" by (rule pow2_mono)
      then have "2 ^ 972 \<le> pow2 e" by (simp add: pow2_def)
      with m52 have "2 ^ 52 * 2 ^ 972 \<le> m * pow2 e"
        by (intro mult_mono) simp_all
      then show False using sp(1) b by simp
    qed
    have p: "pow2 e = 2 ^ 971" by (simp add: e971 pow2_def)
    have "m * 2 ^ 971 < 2 ^ 1024 - 2 ^ 970" using sp(1) b p by simp
    then have "m < (2 ^ 1024 - 2 ^ 970) / 2 ^ 971" by (simp add: pos_less_divide_eq)
    then have "m < of_int (2 ^ 53) - 1 / 2" by simp
    from round_half_even_below[OF this]
    have "(of_int (round_half_even m) :: rat) \<le> of_int (2 ^ 53 - 1)"
      by (simp only: of_int_le_iff)
    then have "of_int (round_half_even m) * (2 ^ 971 :: rat) \<le> of_int (2 ^ 53 - 1) * 2 ^ 971"
      by (intro mult_right_mono) simp_all
    then show ?thesis by (simp add: r p)
  qed
  with lo show ?thesis by simp
qed

lemma round_magnitude_big:
  assumes b: "2 ^ 1024 - 2 ^ 970 \<le> a"
  shows "2 ^ 1024 \<le> round_magnitude a"
proof -
  have a: "0 < a" using b by simp
  obtain m1 e1 where n1: "norm_up a 0 = (m1, e1)" by (cases "norm_up a 0")
  obtain m e where n2: "norm_down m1 e1 = (m, e)" by (cases "norm_down m1 e1")
  note sp = norm_spec[OF a n1 n2]
  have r: "round_magnitude a = of_int (round_half_even m) * pow2 e"
    by (simp add: round_magnitude_def n1 n2)
  have e971: "971 \<le> e"
  proof (rule ccontr)
    assume "\<not> 971 \<le> e"
    then have "e \<le> 970" by simp
    then have "pow2 e \<le> pow2 970" by (rule pow2_mono)
    then have "pow2 e \<le> 2 ^ 970" by (simp add: pow2_def)
    with sp(2,3) have "m * pow2 e \<le> 2 ^ 53 * 2 ^ 970"
      using pow2_pos[of e] by (intro mult_mono) simp_all
    then show False using sp(1) b by simp
  qed
  then have m52: "2 ^ 52 \<le> m" using sp(5) by auto
  show ?thesis
  proof (cases "e = 971")
    case True
    have p: "pow2 e = 2 ^ 971" by (simp add: True pow2_def)
    have "2 ^ 1024 - 2 ^ 970 \<le> m * 2 ^ 971" using sp(1) b p by simp
    then have "(2 ^ 1024 - 2 ^ 970) / 2 ^ 971 \<le> m" by (simp add: pos_divide_le_eq)
    then have "2 ^ 53 - 1 / 2 \<le> m" by simp
    from round_half_even_top[OF this sp(3)] show ?thesis by (simp add: r p)
  next
    case False
    then have "972 \<le> e" using e971 by simp
    then have "pow2 972 \<le> pow2 e" by (rule pow2_mono)
    then have pe: "2 ^ 972 \<le> pow2 e" by (simp add: pow2_def)
    have "(2 ^ 52 :: int) \<le> \<lfloor>m\<rfloor>" using m52 by (simp add: le_floor_iff)
    then have "(2 ^ 52 :: int) \<le> round_half_even m"
      using round_half_even_floor[of m] by linarith
    then have "(of_int (2 ^ 52) :: rat) \<le> of_int (round_half_even m)"
      by (simp only: of_int_le_iff)
    then have "(2 ^ 52 :: rat) \<le> of_int (round_half_even m)" by simp
    with pe have "2 ^ 52 * 2 ^ 972 \<le> of_int (round_half_even m) * pow2 e"
      by (intro mult_mono) simp_all
    then show ?thesis by (simp add: r)
  qed
qed

lemma round_magnitude_int:
  assumes a: "0 < n" and b: "n \<le> 2 ^ 53"
  shows "round_magnitude (of_int n) = of_int n"
proof -
  let ?a = "of_int n :: rat"
  have apos: "0 < ?a" using a by simp
  obtain m1 e1 where n1: "norm_up ?a 0 = (m1, e1)" by (cases "norm_up ?a 0")
  obtain m e where n2: "norm_down m1 e1 = (m, e)" by (cases "norm_down m1 e1")
  note sp = norm_spec[OF apos n1 n2]
  have r: "round_magnitude ?a = of_int (round_half_even m) * pow2 e"
    by (simp add: round_magnitude_def n1 n2)
  have m1int: "m1 \<in> \<int>"
  proof (cases "n = 2 ^ 53")
    case True
    then have "norm_up ?a 0 = (2 ^ 52, 1)" by (simp add: norm_up.simps)
    then show ?thesis using n1 by auto
  next
    case False
    then have "n < 2 ^ 53" using b by simp
    then have "?a < of_int (2 ^ 53)" by (simp only: of_int_less_iff)
    then have "?a < 2 ^ 53" by simp
    then have "m1 = ?a" using norm_up_spec[OF n1] by simp
    then show ?thesis by simp
  qed
  then have "m \<in> \<int>" using norm_down_spec[OF n2] by simp
  then have "of_int (round_half_even m) = m" by (rule round_half_even_int)
  then show ?thesis using r sp(1) by simp
qed

lemma round_finite_bound:
  assumes "\<bar>q\<bar> < 2 ^ 1024 - 2 ^ 970"
  shows "\<bar>round_finite q\<bar> < 2 ^ 1024"
proof (cases "q = 0")
  case True
  then show ?thesis by (simp add: round_finite_def)
next
  case False
  show ?thesis
  proof (cases "0 < q")
    case True
    then have "0 \<le> round_magnitude q \<and> round_magnitude q < 2 ^ 1024"
      using assms by (intro round_magnitude_small) simp_all
    then show ?thesis using True by (simp add: round_finite_def)
  next
    case neg: False
    then have "0 < - q" using False by simp
    moreover have "- q < 2 ^ 1024 - 2 ^ 970" using assms neg by simp
    ultimately have "0 \<le> round_magnitude (- q) \<and> round_magnitude (- q) < 2 ^ 1024"
      by (rule round_magnitude_small)
    then show ?thesis using neg False by (simp add: round_finite_def)
  qed
qed

lemma round_finite_overflow:
  assumes "2 ^ 1024 - 2 ^ 970 \<le> \<bar>q\<bar>"
  shows "2 ^ 1024 \<le> \<bar>round_finite q\<bar>"
proof (cases "0 < q")
  case True
  then have "2 ^ 1024 \<le> round_magnitude q" using assms by (intro round_magnitude_big) simp
  then show ?thesis using True by (simp add: round_finite_def)
next
  case False
  then have "2 ^ 1024 - 2 ^ 970 \<le> - q" using assms by simp
  then have "2 ^ 1024 \<le> round_magnitude (- q)" by (rule round_magnitude_big)
  moreover have "q < 0" using assms False by (cases "q = 0") simp_all
  ultimately show ?thesis by (simp add: round_finite_def)
qed

lemma round_binary64_finite:
  "\<bar>q\<bar> < 2 ^ 1024 - 2 ^ 970 \<Longrightarrow> round_binary64 q = Finite (round_finite q)"
  using round_finite_bound[of q] by (simp add: round_binary64_def Let_def)

lemma round_binary64_overflow:
  "2 ^ 1024 - 2 ^ 970 \<le> \<bar>q\<bar> \<Longrightarrow> round_binary64 q = (if 0 < q then PosInf else NegInf)"
  using round_finite_overflow[of q] by (simp add: round_binary64_def Let_def)

lemma float_of_int_cases:
  "float_of_int n = (if 2 ^ 1024 - 2 ^ 970 \<le> \<bar>n\<bar> then Inl OverflowError
                     else Inr (round_finite (of_int n)))"
proof (cases "2 ^ 1024 - 2 ^ 970 \<le> \<bar>n\<bar>")
  case True
  then have "(of_int (2 ^ 1024 - 2 ^ 970) :: rat) \<le> of_int \<bar>n\<bar>" by (simp only: of_int_le_iff)
  then have "(2 ^ 1024 - 2 ^ 970 :: rat) \<le> \<bar>of_int n\<bar>" by simp
  from round_binary64_overflow[OF this] show ?thesis using True
    by (simp add: float_of_int_def)
next
  case False
  then have "\<bar>n\<bar> < 2 ^ 1024 - 2 ^ 970" by simp
  then have "(of_int \<bar>n\<bar> :: rat) < of_int (2 ^ 1024 - 2 ^ 970)" by (simp only: of_int_less_iff)
  then have "\<bar>of_int n :: rat\<bar> < 2 ^ 1024 - 2 ^ 970" by simp
  from round_binary64_finite[OF this] show ?thesis using False
    by (simp add: float_of_int_def)
qed

lemma round_finite_int: "\<bar>n\<bar> \<le> 2 ^ 53 \<Longrightarrow> round_finite (of_int n) = of_int n"
proof -
  assume b: "\<bar>n\<bar> \<le> 2 ^ 53"
  show ?thesis
  proof (cases "0 < n")
    case True
    then show ?thesis using b round_magnitude_int[of n] by (simp add: round_finite_def)
  next
    case False
    show ?thesis
    proof (cases "n = 0")
      case True
      then show ?thesis by (simp add: round_finite_def)
    next
      case nz: False
      then have "0 < - n" "- n \<le> 2 ^ 53" using False b by simp_all
      from round_magnitude_int[OF this] show ?thesis using False nz
        by (simp add: round_finite_def)
    qed
  qed
qed

lemma larc_limit_finite:
  assumes "\<bar>n\<bar> < 2 ^ 1024 - 2 ^ 970"
  shows "float_mul (Finite binary64_tenth) (Finite (round_finite (of_int n)))
           = Finite (round_finite (binary64_tenth * round_finite (of_int n)))"
proof -
  have "(of_int \<bar>n\<bar> :: rat) < of_int (2 ^ 1024 - 2 ^ 970)" using assms by (simp only: of_int_less_iff)
  then have "\<bar>of_int n :: rat\<bar> < 2 ^ 1024 - 2 ^ 970" by simp
  from round_finite_bound[OF this]
  have g: "\<bar>round_finite (of_int n)\<bar> < 2 ^ 1024" .
  have "\<bar>binary64_tenth * round_finite (of_int n)\<bar>
          = binary64_tenth * \<bar>round_finite (of_int n)\<bar>"
    by (simp add: abs_mult binary64_tenth_def)
  also have "\<dots> \<le> (1 / 8) * \<bar>round_finite (of_int n)\<bar>"
    by (intro mult_right_mono) (simp_all add: binary64_tenth_def)
  also have "\<dots> < 2 ^ 1024 - 2 ^ 970" using g by simp
  finally show ?thesis by (simp add: round_binary64_finite)
qed

lemma floor_rat_numeral: "\<lfloor>numeral a / numeral b :: rat\<rfloor> = numeral a div numeral b"
proof -
  have "\<lfloor>(of_int (numeral a) :: rat) / of_int (numeral b)\<rfloor> = numeral a div numeral b"
    by (rule floor_divide_of_int_eq)
  then show ?thesis by simp
qed

lemmas round_eval = round_finite_def round_magnitude_def norm_up.simps norm_down.simps
  round_half_even_def pow2_def Let_def floor_rat_numeral

lemma binary64_products:
  "round_finite (binary64_tenth * (- 5)) = - 1 / 2"
  "round_finite (binary64_tenth * 3) = 5404319552844596 / 18014398509481984"
  "round_binary64 ((3152519739159347 / 4503599627370496) * 10) = Finite 7"
  "round_binary64 ((3152519739159347 / 4503599627370496) * (- 5)) = Finite (- 7 / 2)"
  by (simp_all add: round_binary64_def round_eval binary64_tenth_def)

lemma py_int_examples: "py_int (- 7 / 2) = - 3" "py_int 7 = 7"
  by code_simp+

text \<open>
  C9, amended: no constructor checks its parameters. For every capacity, also a
  non-positive one, and every trigger threshold, also one outside 0..100, the
  constructors of \<open>LRUCache\<close>, \<open>OptimalCache\<close>, \<open>ARCCache\<close>, \<open>NHitCache\<close>, the
  \<open>LRUCache\<close> of LRU&N-Hit.py and \<open>NHitPolicy\<close> with an int tracking ratio return the
  engine, with the parameters stored as given and every container empty. Construction
  fails only in the conversion to a float, whatever the sign of the capacity and
  whatever the threshold: \<open>LARCCache\<close> raises \<open>OverflowError\<close> exactly when the absolute
  value of the capacity is at least \<open>2 ^ 1024 - 2 ^ 970\<close>, the ints that have no finite
  binary64 value, and stores capacity and rounded limit otherwise; \<open>NHitPolicy\<close> with a
  float tracking ratio raises \<open>OverflowError\<close> for the same capacities and when the
  rounded product is infinite, \<open>ValueError\<close> when it is NaN, and stores the truncated
  product otherwise.
\<close>

theorem construct_never_rejects:
  "construct_LRUCache c = Inr \<lparr>max_capacity = c, cache_store = []\<rparr>
   \<and> construct_OptimalCache c = Inr \<lparr>OptimalCache.capacity = c, OptimalCache.cache = {},
        heap = [], page_next_use = Map.empty, seen_pages = {}\<rparr>
   \<and> construct_ARCCache c
        = Inr \<lparr>ARCCache.cache_size = c, T1 = [], T2 = [], B1 = [], B2 = [], p = 0\<rparr>
   \<and> construct_NHitCache c trig ins = Inr \<lparr>NHitCache.capacity = c,
        NHitCache.trigger_threshold = trig, insertion_threshold = ins, NHitCache.cache = [],
        tracking = Map.empty, sorted_items = [], insertion_counter = 0\<rparr>
   \<and> construct_PromoLRU c = Inr \<lparr>PromoLRU.capacity = c, PromoLRU.cache = []\<rparr>
   \<and> construct_NHitPolicy c trig n (PyInt r)
        = Inr \<lparr>NHitPolicy.trigger_threshold = trig, N = n, cache_capacity = c,
               max_tracked_items = r * c, access_counts = [], tracking_queue = []\<rparr>
   \<and> construct_LARCCache c
        = (if 2 ^ 1024 - 2 ^ 970 \<le> \<bar>c\<bar> then Inl OverflowError
           else Inr \<lparr>LARCCache.cache_size = c, LARCCache.cache = [], recent_cache = [],
                      recent_cache_limit
                        = round_finite (binary64_tenth * round_finite (of_int c))\<rparr>)
   \<and> construct_NHitPolicy c trig n (PyFloat x)
        = (if 2 ^ 1024 - 2 ^ 970 \<le> \<bar>c\<bar> then Inl OverflowError
           else (case float_mul x (Finite (round_finite (of_int c))) of
                   Finite q \<Rightarrow>
                     Inr \<lparr>NHitPolicy.trigger_threshold = trig, N = n, cache_capacity = c,
                          max_tracked_items = py_int q, access_counts = [],
                          tracking_queue = []\<rparr>
                 | PosInf \<Rightarrow> Inl OverflowError
                 | NegInf \<Rightarrow> Inl OverflowError
                 | NaN \<Rightarrow> Inl ValueError))"
proof -
  have "construct_LARCCache c
        = (if 2 ^ 1024 - 2 ^ 970 \<le> \<bar>c\<bar> then Inl OverflowError
           else Inr \<lparr>LARCCache.cache_size = c, LARCCache.cache = [], recent_cache = [],
                      recent_cache_limit
                        = round_finite (binary64_tenth * round_finite (of_int c))\<rparr>)"
    by (simp add: construct_LARCCache_def float_of_int_cases)
  moreover have "construct_NHitPolicy c trig n (PyFloat x)
        = (if 2 ^ 1024 - 2 ^ 970 \<le> \<bar>c\<bar> then Inl OverflowError
           else (case float_mul x (Finite (round_finite (of_int c))) of
                   Finite q \<Rightarrow>
                     Inr \<lparr>NHitPolicy.trigger_threshold = trig, N = n, cache_capacity = c,
                          max_tracked_items = py_int q, access_counts = [],
                          tracking_queue = []\<rparr>
                 | PosInf \<Rightarrow> Inl OverflowError
                 | NegInf \<Rightarrow> Inl OverflowError
                 | NaN \<Rightarrow> Inl ValueError))"
    by (simp add: construct_NHitPolicy_def number_times_int_def int_of_number_def
        int_of_float_def float_of_int_cases split: py_float.splits)
  moreover have "construct_NHitPolicy c trig n (PyInt r)
        = Inr \<lparr>NHitPolicy.trigger_threshold = trig, N = n, cache_capacity = c,
               max_tracked_items = r * c, access_counts = [], tracking_queue = []\<rparr>"
    by (simp add: construct_NHitPolicy_def number_times_int_def int_of_number_def)
  ultimately show ?thesis
    by (simp add: construct_LRUCache_def construct_OptimalCache_def construct_ARCCache_def
        construct_NHitCache_def construct_PromoLRU_def LRUCache_init_def OptimalCache_init_def
        ARCCache_init_def NHitCache_init_def PromoLRU_init_def)
qed

theorem construct_never_rejects_witness:
  "construct_LRUCache (- 5) = Inr \<lparr>max_capacity = - 5, cache_store = []\<rparr>
   \<and> construct_NHitCache (- 5) 150 2 = Inr \<lparr>NHitCache.capacity = - 5,
        NHitCache.trigger_threshold = 150, insertion_threshold = 2, NHitCache.cache = [],
        tracking = Map.empty, sorted_items = [], insertion_counter = 0\<rparr>
   \<and> construct_PromoLRU (- 5) = Inr \<lparr>PromoLRU.capacity = - 5, PromoLRU.cache = []\<rparr>
   \<and> construct_NHitPolicy (- 5) 150 2 (PyInt 2)
        = Inr \<lparr>NHitPolicy.trigger_threshold = 150, N = 2, cache_capacity = - 5,
               max_tracked_items = - 10, access_counts = [], tracking_queue = []\<rparr>
   \<and> construct_LARCCache (- 5)
        = Inr \<lparr>LARCCache.cache_size = - 5, LARCCache.cache = [], recent_cache = [],
               recent_cache_limit = - 1 / 2\<rparr>
   \<and> construct_NHitPolicy (- 5) 150 2 (PyFloat (Finite (3152519739159347 / 4503599627370496)))
        = Inr \<lparr>NHitPolicy.trigger_threshold = 150, N = 2, cache_capacity = - 5,
               max_tracked_items = - 3, access_counts = [], tracking_queue = []\<rparr>"
  using construct_never_rejects[of "- 5" 150 2 2 2
      "Finite (3152519739159347 / 4503599627370496)"]
    round_finite_int[of "- 5"] binary64_products py_int_examples
  by simp

lemma construct_NHitPolicy_int:
  "construct_NHitPolicy c trig n (PyInt r) = Inr (NHitPolicy_init c trig n (of_int r))"
proof -
  have "py_int (of_int r * of_int c) = r * c"
    using floor_of_int[of "r * c", where ?'a = rat] ceiling_of_int[of "r * c", where ?'a = rat]
    by (simp add: py_int_def)
  then show ?thesis
    by (simp add: construct_NHitPolicy_def number_times_int_def int_of_number_def
        NHitPolicy_init_def)
qed

lemma construct_examples:
  "construct_LARCCache 0 = Inr \<lparr>LARCCache.cache_size = 0, LARCCache.cache = [], recent_cache = [],
               recent_cache_limit = 0\<rparr>"
  "construct_LARCCache 3 = Inr \<lparr>LARCCache.cache_size = 3, LARCCache.cache = [], recent_cache = [],
               recent_cache_limit = 5404319552844596 / 18014398509481984\<rparr>"
  "construct_LARCCache (10 ^ 400) = Inl OverflowError"
  "construct_LARCCache (- (10 ^ 400)) = Inl OverflowError"
  "construct_NHitPolicy 10 80 2 (PyFloat (Finite (3152519739159347 / 4503599627370496)))
     = Inr \<lparr>trigger_threshold = 80, N = 2, cache_capacity = 10,
            max_tracked_items = 7, access_counts = [], tracking_queue = []\<rparr>"
  "construct_NHitPolicy (10 ^ 400) 80 2 (PyFloat (Finite (1 / 2))) = Inl OverflowError"
  "construct_NHitPolicy 10 80 2 (PyFloat NaN) = Inl ValueError"
  "construct_NHitPolicy 10 80 2 (PyFloat PosInf) = Inl OverflowError"
  "construct_NHitPolicy (10 ^ 400) 80 2 (PyInt 2)
     = Inr \<lparr>trigger_threshold = 80, N = 2, cache_capacity = 10 ^ 400,
            max_tracked_items = 2 * 10 ^ 400, access_counts = [], tracking_queue = []\<rparr>"
proof -
  have r0: "round_finite (of_int 0) = 0" "round_finite (of_int 3) = 3"
    "round_finite (of_int 10) = 10"
    using round_finite_int[of 0] round_finite_int[of 3] round_finite_int[of 10] by simp_all
  have b0: "round_finite 0 = 0" by (simp add: round_finite_def)
  show "construct_LARCCache 0 = Inr \<lparr>LARCCache.cache_size = 0, LARCCache.cache = [],
           recent_cache = [], recent_cache_limit = 0\<rparr>"
    using r0 b0 by (simp add: construct_LARCCache_def float_of_int_cases)
  show "construct_LARCCache 3 = Inr \<lparr>LARCCache.cache_size = 3, LARCCache.cache = [],
           recent_cache = [], recent_cache_limit = 5404319552844596 / 18014398509481984\<rparr>"
    using r0 binary64_products by (simp add: construct_LARCCache_def float_of_int_cases)
  show "construct_LARCCache (10 ^ 400) = Inl OverflowError"
    by (simp add: construct_LARCCache_def float_of_int_cases)
  show "construct_LARCCache (- (10 ^ 400)) = Inl OverflowError"
    by (simp add: construct_LARCCache_def float_of_int_cases)
  show "construct_NHitPolicy 10 80 2 (PyFloat (Finite (3152519739159347 / 4503599627370496)))
     = Inr \<lparr>trigger_threshold = 80, N = 2, cache_capacity = 10,
            max_tracked_items = 7, access_counts = [], tracking_queue = []\<rparr>"
    using r0 binary64_products py_int_examples
    by (simp add: construct_NHitPolicy_def number_times_int_def int_of_number_def
        int_of_float_def float_of_int_cases)
  show "construct_NHitPolicy (10 ^ 400) 80 2 (PyFloat (Finite (1 / 2))) = Inl OverflowError"
    by (simp add: construct_NHitPolicy_def number_times_int_def float_of_int_cases)
  show "construct_NHitPolicy 10 80 2 (PyFloat NaN) = Inl ValueError"
    by (simp add: construct_NHitPolicy_def number_times_int_def int_of_number_def
        int_of_float_def float_of_int_cases)
  show "construct_NHitPolicy 10 80 2 (PyFloat PosInf) = Inl OverflowError"
    using r0 by (simp add: construct_NHitPolicy_def number_times_int_def int_of_number_def
        int_of_float_def float_of_int_cases)
  show "construct_NHitPolicy (10 ^ 400) 80 2 (PyInt 2)
     = Inr \<lparr>trigger_threshold = 80, N = 2, cache_capacity = 10 ^ 400,
            max_tracked_items = 2 * 10 ^ 400, access_counts = [], tracking_queue = []\<rparr>"
    by (simp add: construct_NHitPolicy_def number_times_int_def int_of_number_def)
qed

subsection \<open>C5: the precomputed next-use array\<close>

lemma first_pos_le: "first_pos y xs \<le> length xs"
  by (induction xs) auto

lemma first_pos_less_iff: "first_pos y xs < length xs \<longleftrightarrow> y \<in> set xs"
  by (induction xs) auto

lemma first_pos_absent: "y \<notin> set xs \<Longrightarrow> first_pos y xs = length xs"
  by (induction xs) auto

lemma first_pos_nth: "y \<in> set xs \<Longrightarrow> xs ! first_pos y xs = y"
  by (induction xs) auto

lemma first_pos_before: "m < first_pos y xs \<Longrightarrow> xs ! m \<noteq> y"
proof (induction xs arbitrary: m)
  case Nil
  then show ?case by simp
next
  case (Cons x xs)
  then show ?case by (cases m) (auto split: if_splits)
qed

lemma pre_inv_step:
  assumes inv: "pre_inv ks (Suc i) nu lo"
  shows "pre_inv ks i (case lo (ks ! i) of Some j \<Rightarrow> nu[i := Fin (int j)] | None \<Rightarrow> nu)
           (lo(ks ! i \<mapsto> i))"
proof -
  let ?page = "ks ! i"
  let ?nu' = "case lo ?page of Some j \<Rightarrow> nu[i := Fin (int j)] | None \<Rightarrow> nu"
  from inv have i: "i < length ks" and len: "length nu = length ks"
    and dn: "\<And>m. Suc i \<le> m \<Longrightarrow> m < length ks \<Longrightarrow> nu ! m = nu_of (Suc m) (drop (Suc m) ks) (ks ! m)"
    and todo: "\<And>m. m < Suc i \<Longrightarrow> nu ! m = INFINITY"
    and lo: "\<And>y. lo y = (if y \<in> set (drop (Suc i) ks) then Some (Suc i + first_pos y (drop (Suc i) ks)) else None)"
    by (auto simp: pre_inv_def)
  have dr: "drop i ks = ?page # drop (Suc i) ks"
    using i by (simp add: Cons_nth_drop_Suc)
  have len': "length ?nu' = length ks"
    using len by (simp split: option.split)
  have at_i: "?nu' ! i = nu_of (Suc i) (drop (Suc i) ks) ?page"
    using lo[of ?page] todo[of i] i len by (auto simp: nu_of_def split: option.split)
  have other: "\<And>m. m \<noteq> i \<Longrightarrow> ?nu' ! m = nu ! m"
    by (simp split: option.split)
  have lo': "\<And>y. (lo(?page \<mapsto> i)) y
      = (if y \<in> set (drop i ks) then Some (i + first_pos y (drop i ks)) else None)"
    using lo by (auto simp: dr)
  show ?thesis
    unfolding pre_inv_def
  proof (intro conjI allI impI)
    show "i \<le> length ks" using i by simp
    show "length ?nu' = length ks" by (rule len')
    show "?nu' ! m = nu_of (Suc m) (drop (Suc m) ks) (ks ! m)" if "i \<le> m \<and> m < length ks" for m
    proof (cases "m = i")
      case True
      then show ?thesis using at_i by simp
    next
      case False
      then show ?thesis using that other[of m] dn[of m] by simp
    qed
    show "?nu' ! m = INFINITY" if "m < i" for m
      using that other[of m] todo[of m] by simp
    show "(lo(?page \<mapsto> i)) y
      = (if y \<in> set (drop i ks) then Some (i + first_pos y (drop i ks)) else None)" for y
      by (rule lo')
  qed
qed

lemma precompute_loop_correct:
  assumes "pre_inv (map fst sq) k nu lo"
  shows "length (precompute_loop k sq nu lo) = length sq
     \<and> (\<forall>i < length sq. precompute_loop k sq nu lo ! i
            = nu_of (Suc i) (drop (Suc i) (map fst sq)) (map fst sq ! i))"
  using assms
proof (induction k arbitrary: nu lo)
  case 0
  then show ?case by (auto simp: pre_inv_def)
next
  case (Suc k)
  from Suc.prems have k: "k < length sq" by (simp add: pre_inv_def)
  then have page: "fst (sq ! k) = map fst sq ! k" by simp
  have eq: "precompute_loop (Suc k) sq nu lo
      = precompute_loop k sq
          (case lo (map fst sq ! k) of Some j \<Rightarrow> nu[k := Fin (int j)] | None \<Rightarrow> nu)
          (lo(map fst sq ! k \<mapsto> k))"
    by (simp only: precompute_loop.simps Let_def page)
  have "pre_inv (map fst sq) k
          (case lo (map fst sq ! k) of Some j \<Rightarrow> nu[k := Fin (int j)] | None \<Rightarrow> nu)
          (lo(map fst sq ! k \<mapsto> k))"
    by (rule pre_inv_step[OF Suc.prems])
  from Suc.IH[OF this] show ?case
    unfolding eq .
qed

lemma pre_inv_init: "pre_inv (map fst sq) (length sq) (replicate (length sq) INFINITY) Map.empty"
  by (auto simp: pre_inv_def)

lemma precompute_next_use_nth:
  "i < length sq \<Longrightarrow> precompute_next_use sq ! i
      = nu_of (Suc i) (drop (Suc i) (map fst sq)) (fst (sq ! i))"
  using precompute_loop_correct[OF pre_inv_init]
  by (simp add: precompute_next_use_def)

lemma precompute_next_use_length: "length (precompute_next_use sq) = length sq"
  using precompute_loop_correct[OF pre_inv_init]
  by (simp add: precompute_next_use_def)

lemma annotate_nth:
  "length (annotate i ks) = length ks
   \<and> (\<forall>m < length ks. annotate i ks ! m = (ks ! m, nu_of (Suc (i + m)) (drop (Suc m) ks) (ks ! m)))"
proof (induction ks arbitrary: i)
  case Nil
  then show ?case by simp
next
  case (Cons x ks)
  show ?case
  proof (intro conjI allI impI)
    show "length (annotate i (x # ks)) = length (x # ks)" using Cons.IH by simp
    fix m assume "m < length (x # ks)"
    then show "annotate i (x # ks) ! m
       = ((x # ks) ! m, nu_of (Suc (i + m)) (drop (Suc m) (x # ks)) ((x # ks) ! m))"
      using Cons.IH[of "Suc i"] by (cases m) auto
  qed
qed

lemma zip_precompute:
  "zip (map fst sq) (precompute_next_use sq) = annotate 0 (map fst sq)"
  by (rule nth_equalityI)
     (simp_all add: precompute_next_use_length annotate_nth precompute_next_use_nth)

text \<open>
  C5: at every position \<open>i\<close> of a request sequence, \<open>next_use[i]\<close> is the smallest index
  \<open>j > i\<close> at which the key of position \<open>i\<close> occurs again, and \<open>float('inf')\<close> when it
  never occurs again; the array has the length of the sequence. (The computation is
  \<open>precompute_loop\<close>, one pass from the last position to the first that maintains the
  map \<open>last_occurrence\<close>.)
\<close>

theorem next_use_spec:
  assumes "i < length sq"
  shows "length (precompute_next_use sq) = length sq \<and>
    (case precompute_next_use sq ! i of
       Fin j \<Rightarrow> int i < j \<and> j < int (length sq) \<and> fst (sq ! nat j) = fst (sq ! i)
                \<and> (\<forall>k. i < k \<and> k < nat j \<longrightarrow> fst (sq ! k) \<noteq> fst (sq ! i))
     | INFINITY \<Rightarrow> \<forall>k. i < k \<and> k < length sq \<longrightarrow> fst (sq ! k) \<noteq> fst (sq ! i))"
proof -
  let ?ks = "map fst sq"
  let ?fut = "drop (Suc i) ?ks"
  let ?y = "fst (sq ! i)"
  have nth: "precompute_next_use sq ! i = nu_of (Suc i) ?fut ?y"
    by (rule precompute_next_use_nth[OF assms])
  have fut_nth: "\<And>m. m < length ?fut \<Longrightarrow> ?fut ! m = fst (sq ! (Suc i + m))"
    by simp
  show ?thesis
  proof (cases "?y \<in> set ?fut")
    case True
    let ?d = "first_pos ?y ?fut"
    have d: "?d < length ?fut" using True by (simp only: first_pos_less_iff)
    then have j_lt: "Suc i + ?d < length sq" by simp
    have at: "fst (sq ! (Suc i + ?d)) = ?y"
      using first_pos_nth[OF True] fut_nth[OF d] by simp
    have before: "fst (sq ! k) \<noteq> ?y" if "i < k" and "k < Suc i + ?d" for k
    proof -
      from that obtain m where m: "k = Suc i + m" and md: "m < ?d"
        by (metis add_Suc less_iff_Suc_add nat_add_left_cancel_less)
      have "?fut ! m \<noteq> ?y" using first_pos_before[OF md] .
      moreover have "m < length ?fut" using md d by simp
      ultimately show ?thesis using fut_nth[of m] m by simp
    qed
    define j where "j = Suc i + ?d"
    have val: "precompute_next_use sq ! i = Fin (int j)"
      using True nth by (simp add: nu_of_def j_def)
    have "i < j" "j < length sq" "fst (sq ! j) = ?y"
      "\<forall>k. i < k \<and> k < j \<longrightarrow> fst (sq ! k) \<noteq> ?y"
      using j_lt at before by (simp_all add: j_def)
    then have "int i < int j" "int j < int (length sq)" "fst (sq ! nat (int j)) = ?y"
      "\<forall>k. i < k \<and> k < nat (int j) \<longrightarrow> fst (sq ! k) \<noteq> ?y"
      by (simp_all only: nat_int of_nat_less_iff)
    then show ?thesis
      unfolding val by (simp only: nextuse.case precompute_next_use_length simp_thms)
  next
    case False
    have "fst (sq ! k) \<noteq> ?y" if "i < k" and "k < length sq" for k
    proof -
      from that obtain m where m: "k = Suc i + m"
        by (metis add_Suc less_iff_Suc_add)
      then have "m < length ?fut" using that by simp
      then have "?fut ! m \<in> set ?fut" by (rule nth_mem)
      then show ?thesis using False fut_nth[of m] \<open>m < length ?fut\<close> m by auto
    qed
    then show ?thesis
      using False nth by (simp add: nu_of_def precompute_next_use_length)
  qed
qed


theorem next_use_spec_witness:
  "(0::nat) < length [(7::int, ''read''), (8, ''write''), (7, ''read'')]
   \<and> precompute_next_use [(7, ''read''), (8, ''write''), (7, ''read'')] ! 0 = Fin 2
   \<and> precompute_next_use [(7, ''read''), (8, ''write''), (7, ''read'')] ! 1 = INFINITY"
  using next_use_spec[of 0 "[(7, ''read''), (8, ''write''), (7, ''read'')]"]
  by (simp add: precompute_next_use_def)

subsection \<open>The Belady engine: heap, eviction loop and one access\<close>

lemma entry_less_key: "entry_less e1 e2 \<longleftrightarrow> entry_key e1 < entry_key e2"
  by (cases e1; cases e2; cases "fst e1"; cases "fst e2")
     (auto simp: entry_less_def entry_key_def)

lemma entry_key_inj: "entry_key e1 = entry_key e2 \<Longrightarrow> e1 = e2"
  by (cases e1; cases e2; cases "fst e1"; cases "fst e2") (auto simp: entry_key_def)

lemma heap_least_le: "e \<in> set (m # es) \<Longrightarrow> \<not> entry_less e (heap_least m es)"
proof (induction es arbitrary: m e)
  case Nil
  then show ?case by (simp add: entry_less_key)
next
  case (Cons x es)
  let ?m' = "if entry_less x m then x else m"
  have m'm: "entry_key ?m' \<le> entry_key m" and m'x: "entry_key ?m' \<le> entry_key x"
    by (auto simp: entry_less_key)
  have r: "entry_key (heap_least ?m' es) \<le> entry_key ?m'"
    using Cons.IH[of ?m' ?m'] by (simp add: entry_less_key)
  have eq: "heap_least m (x # es) = heap_least ?m' es" by simp
  show ?case
  proof (cases "e \<in> set es")
    case True
    then show ?thesis using Cons.IH[of e ?m'] by simp
  next
    case False
    with Cons.prems have "e = m \<or> e = x" by auto
    then have "entry_key ?m' \<le> entry_key e" using m'm m'x by auto
    with r have "entry_key (heap_least ?m' es) \<le> entry_key e" by (rule order_trans)
    then show ?thesis unfolding eq entry_less_key by simp
  qed
qed

lemma heappop_Some:
  assumes "heappop h = Some (m, h')"
  shows "m \<in> set h" and "h' = remove1 m h" and "\<And>e. e \<in> set h \<Longrightarrow> \<not> entry_less e m"
proof -
  from assms obtain e es where h: "h = e # es"
    by (cases h) (auto simp: heappop_def)
  with assms have m: "m = heap_least e es" and h': "h' = remove1 m h"
    by (auto simp: heappop_def Let_def)
  show "m \<in> set h" using heap_least_mem[of e es] m h by simp
  show "h' = remove1 m h" by (rule h')
  show "\<And>x. x \<in> set h \<Longrightarrow> \<not> entry_less x m"
    using heap_least_le[of _ e es] m h by simp
qed

lemma heappop_None: "heappop h = None \<longleftrightarrow> h = []"
  by (cases h) (auto simp: heappop_def Let_def)

lemma evict_loop_empty:
  "heappop (heap s) = None \<Longrightarrow> evict_loop s = Inr (s, None)"
  by (rule trans, rule evict_loop.simps) simp

lemma evict_loop_valid:
  "heappop (heap s) = Some ((nu, pg), h') \<Longrightarrow> pg \<in> OptimalCache.cache s
   \<Longrightarrow> dict_get (page_next_use s) pg (Fin (- 1)) = nu
   \<Longrightarrow> evict_loop s =
        (case page_next_use s pg of
           None \<Rightarrow> Inl KeyError
         | Some _ \<Rightarrow>
             Inr (s\<lparr>heap := h', OptimalCache.cache := OptimalCache.cache s - {pg},
                    page_next_use := (page_next_use s)(pg := None)\<rparr>, Some pg))"
  by (rule trans, rule evict_loop.simps) simp

lemma evict_loop_stale:
  "heappop (heap s) = Some ((nu, pg), h')
   \<Longrightarrow> \<not> (pg \<in> OptimalCache.cache s \<and> dict_get (page_next_use s) pg (Fin (- 1)) = nu)
   \<Longrightarrow> evict_loop s = evict_loop (s\<lparr>heap := h'\<rparr>)"
  by (rule trans, rule evict_loop.simps) auto

text \<open>What the eviction loop returns, whatever the state.\<close>

lemma evict_loop_result:
  "evict_loop s = Inr (s', ev) \<Longrightarrow>
     OptimalCache.capacity s' = OptimalCache.capacity s \<and> seen_pages s' = seen_pages s
     \<and> set (heap s') \<subseteq> set (heap s)
     \<and> (case ev of
           None \<Rightarrow> OptimalCache.cache s' = OptimalCache.cache s
                    \<and> page_next_use s' = page_next_use s \<and> heap s' = []
         | Some v \<Rightarrow> v \<in> OptimalCache.cache s
                    \<and> (\<exists>nu. page_next_use s v = Some nu \<and> (nu, v) \<in> set (heap s))
                    \<and> OptimalCache.cache s' = OptimalCache.cache s - {v}
                    \<and> page_next_use s' = (page_next_use s)(v := None))"
proof (induction s arbitrary: s' ev rule: evict_loop.induct)
  case (1 s)
  show ?case
  proof (cases "heappop (heap s)")
    case None
    then show ?thesis using "1.prems"
      by (auto simp: evict_loop_empty heappop_None)
  next
    case (Some a)
    obtain nu pg h' where a: "a = ((nu, pg), h')" by (cases a) auto
    note pop = heappop_Some[OF Some[unfolded a]]
    have sub: "set h' \<subseteq> set (heap s)" using pop(2) set_remove1_subset[of "(nu, pg)" "heap s"] by simp
    show ?thesis
    proof (cases "pg \<in> OptimalCache.cache s \<and> dict_get (page_next_use s) pg (Fin (- 1)) = nu")
      case True
      then show ?thesis using "1.prems" pop(1) sub
        by (auto simp: evict_loop_valid[OF Some[unfolded a]] dict_get_def split: option.splits)
    next
      case False
      have rec: "evict_loop (s\<lparr>heap := h'\<rparr>) = Inr (s', ev)"
        using "1.prems" evict_loop_stale[OF Some[unfolded a] False] by simp
      from "1.IH"[OF Some a[symmetric] refl False rec] sub show ?thesis
        by (auto split: option.splits)
    qed
  qed
qed

lemma evict_loop_total:
  "heap_covers s \<Longrightarrow>
     \<exists>s' ev. evict_loop s = Inr (s', ev) \<and> heap_covers s'
       \<and> (OptimalCache.cache s \<noteq> {} \<longrightarrow> ev \<noteq> None)
       \<and> (\<forall>v nv. ev = Some v \<longrightarrow> page_next_use s v = Some nv \<longrightarrow>
             (\<forall>y \<in> OptimalCache.cache s. \<forall>ny. page_next_use s y = Some ny
                 \<longrightarrow> \<not> entry_less (ny, y) (nv, v)))"
proof (induction s rule: evict_loop.induct)
  case (1 s)
  note cov = "1.prems"
  show ?case
  proof (cases "heappop (heap s)")
    case None
    then have "heap s = []" by (simp add: heappop_None)
    with cov have "OptimalCache.cache s = {}" by (auto simp: heap_covers_def)
    then show ?thesis using evict_loop_empty[OF None] cov by simp
  next
    case (Some a)
    obtain nu pg h' where a: "a = ((nu, pg), h')" by (cases a) auto
    note pop = heappop_Some[OF Some[unfolded a]]
    show ?thesis
    proof (cases "pg \<in> OptimalCache.cache s \<and> dict_get (page_next_use s) pg (Fin (- 1)) = nu")
      case True
      from True cov have pnu: "page_next_use s pg = Some nu"
        by (auto simp: heap_covers_def dict_get_def)
      let ?s' = "s\<lparr>heap := h', OptimalCache.cache := OptimalCache.cache s - {pg},
                    page_next_use := (page_next_use s)(pg := None)\<rparr>"
      have ev: "evict_loop s = Inr (?s', Some pg)"
        using evict_loop_valid[OF Some[unfolded a]] True pnu by simp
      have cov': "heap_covers ?s'"
        unfolding heap_covers_def
      proof
        fix y assume "y \<in> OptimalCache.cache ?s'"
        then have y: "y \<in> OptimalCache.cache s" and ne: "y \<noteq> pg" by auto
        from cov y obtain ny where ny: "page_next_use s y = Some ny" "(ny, y) \<in> set (heap s)"
          by (auto simp: heap_covers_def)
        then have "(ny, y) \<in> set h'" using pop(2) ne by simp
        then show "\<exists>nu. page_next_use ?s' y = Some nu \<and> (nu, y) \<in> set (heap ?s')"
          using ny ne by simp
      qed
      have mx: "\<not> entry_less (ny, y) (nu, pg)"
        if "y \<in> OptimalCache.cache s" and "page_next_use s y = Some ny" for y ny
      proof -
        from cov that have "(ny, y) \<in> set (heap s)" by (auto simp: heap_covers_def)
        then show ?thesis by (rule pop(3))
      qed
      show ?thesis using ev cov' mx pnu by auto
    next
      case False
      let ?s1 = "s\<lparr>heap := h'\<rparr>"
      have rec: "evict_loop s = evict_loop ?s1"
        by (rule evict_loop_stale[OF Some[unfolded a] False])
      have cov1: "heap_covers ?s1"
        unfolding heap_covers_def
      proof
        fix y assume "y \<in> OptimalCache.cache ?s1"
        then have y: "y \<in> OptimalCache.cache s" by simp
        from cov y obtain ny where ny: "page_next_use s y = Some ny" "(ny, y) \<in> set (heap s)"
          by (auto simp: heap_covers_def)
        have "(ny, y) \<noteq> (nu, pg)" using False y ny by (auto simp: dict_get_def)
        then have "(ny, y) \<in> set h'" using pop(2) ny by simp
        then show "\<exists>nu. page_next_use ?s1 y = Some nu \<and> (nu, y) \<in> set (heap ?s1)"
          using ny by simp
      qed
      from "1.IH"[OF Some a[symmetric] refl False cov1] show ?thesis
        unfolding rec by simp
    qed
  qed
qed

text \<open>One call of \<open>access_page\<close> from a state in which the heap covers the cache.\<close>

lemma access_page_step:
  assumes inv: "opt_inv s"
  shows "\<exists>s' ev. access_page s pg nu = Inr (s', pg \<in> OptimalCache.cache s, ev)
     \<and> opt_inv s' \<and> OptimalCache.capacity s' = OptimalCache.capacity s
     \<and> OptimalCache.cache s'
          = (if pg \<in> OptimalCache.cache s then OptimalCache.cache s
             else insert pg (OptimalCache.cache s - set_option ev))
     \<and> (\<forall>y \<in> OptimalCache.cache s'.
           page_next_use s' y = (if y = pg then Some nu else page_next_use s y))
     \<and> (\<forall>y \<in> OptimalCache.cache s'. \<forall>ny. page_next_use s' y = Some ny \<longrightarrow> (ny, y) \<in> set (heap s'))
     \<and> (\<forall>v. ev = Some v \<longrightarrow> pg \<notin> OptimalCache.cache s \<and> v \<in> OptimalCache.cache s
           \<and> OptimalCache.capacity s \<le> int (card (OptimalCache.cache s))
           \<and> (\<forall>y \<in> OptimalCache.cache s. \<forall>ny nv. page_next_use s y = Some ny
                 \<longrightarrow> page_next_use s v = Some nv \<longrightarrow> \<not> entry_less (ny, y) (nv, v)))
     \<and> (ev = None \<longrightarrow> pg \<in> OptimalCache.cache s
           \<or> int (card (OptimalCache.cache s)) < OptimalCache.capacity s
           \<or> OptimalCache.cache s = {})"
proof (cases "pg \<in> OptimalCache.cache s")
  case True
  let ?s' = "s\<lparr>page_next_use := (page_next_use s)(pg \<mapsto> nu),
               heap := heappush (heap s) (nu, pg)\<rparr>"
  have "access_page s pg nu = Inr (?s', True, None)"
    using True by (simp add: access_page_def)
  moreover have "opt_inv ?s'"
    using inv by (auto simp: opt_inv_def heap_covers_def heappush_def)
  moreover have "\<forall>y \<in> OptimalCache.cache ?s'. \<forall>ny. page_next_use ?s' y = Some ny
                   \<longrightarrow> (ny, y) \<in> set (heap ?s')"
    using inv by (auto simp: opt_inv_def heap_covers_def heappush_def)
  ultimately show ?thesis using True by simp
next
  case False
  from inv have fin: "finite (OptimalCache.cache s)" and cov: "heap_covers s"
    by (simp_all add: opt_inv_def)
  show ?thesis
  proof (cases "OptimalCache.capacity s \<le> int (card (OptimalCache.cache s))")
    case full: True
    from evict_loop_total[OF cov] obtain s1 ev where
      ev: "evict_loop s = Inr (s1, ev)" and cov1: "heap_covers s1"
      and found: "OptimalCache.cache s \<noteq> {} \<longrightarrow> ev \<noteq> None"
      and mx: "\<forall>v nv. ev = Some v \<longrightarrow> page_next_use s v = Some nv \<longrightarrow>
             (\<forall>y \<in> OptimalCache.cache s. \<forall>ny. page_next_use s y = Some ny
                 \<longrightarrow> \<not> entry_less (ny, y) (nv, v))"
      by blast
    note res = evict_loop_result[OF ev]
    let ?s' = "s1\<lparr>OptimalCache.cache := insert pg (OptimalCache.cache s1),
                  page_next_use := (page_next_use s1)(pg \<mapsto> nu),
                  heap := heappush (heap s1) (nu, pg)\<rparr>"
    have ap: "access_page s pg nu = Inr (?s', False, ev)"
      using False full ev by (simp add: access_page_def)
    have c1: "OptimalCache.cache s1 = OptimalCache.cache s - set_option ev"
      and p1: "\<forall>y \<in> OptimalCache.cache s1. page_next_use s1 y = page_next_use s y"
      using res by (auto split: option.splits)
    have inv': "opt_inv ?s'"
      using cov1 fin c1 by (auto simp: opt_inv_def heap_covers_def heappush_def)
    have cov': "\<forall>y \<in> OptimalCache.cache ?s'. \<forall>ny. page_next_use ?s' y = Some ny
                   \<longrightarrow> (ny, y) \<in> set (heap ?s')"
      using cov1 by (auto simp: heap_covers_def heappush_def)
    have vic: "\<forall>v. ev = Some v \<longrightarrow> v \<in> OptimalCache.cache s"
      using res by (auto split: option.splits)
    show ?thesis
      using ap inv' cov' c1 p1 res False full found mx vic
      by (auto split: option.splits)
  next
    case room: False
    let ?s' = "s\<lparr>OptimalCache.cache := insert pg (OptimalCache.cache s),
                 page_next_use := (page_next_use s)(pg \<mapsto> nu),
                 heap := heappush (heap s) (nu, pg)\<rparr>"
    have ap: "access_page s pg nu = Inr (?s', False, None)"
      using False room by (simp add: access_page_def)
    have inv': "opt_inv ?s'"
      using cov fin by (auto simp: opt_inv_def heap_covers_def heappush_def)
    have cov': "\<forall>y \<in> OptimalCache.cache ?s'. \<forall>ny. page_next_use ?s' y = Some ny
                   \<longrightarrow> (ny, y) \<in> set (heap ?s')"
      using cov by (auto simp: heap_covers_def heappush_def)
    show ?thesis using ap inv' cov' False room by auto
  qed
qed

subsection \<open>Policies that admit every requested key, and the exchange argument\<close>

lemma reach_more_misses: "reach c C fut n \<Longrightarrow> n \<le> n' \<Longrightarrow> reach c C fut n'"
  by (cases rule: reach.cases) (auto intro: reach.intros)

lemma reach_superset:
  assumes r: "reach c A fut n" and AB: "A \<subseteq> B"
  shows "reach c B fut n"
  using r
proof (cases rule: reach.cases)
  case reach_Nil
  then show ?thesis by (simp add: reach.reach_Nil)
next
  case (reach_Cons x D fut' m)
  have "D \<subseteq> insert x B" using reach_Cons(3) AB by auto
  moreover have "m + (if x \<in> B then 0 else 1) \<le> n"
    using reach_Cons(7) AB by (auto split: if_splits)
  ultimately have "reach c B (x # fut') n"
    using reach_Cons(2,4,5,6) reach.reach_Cons[of x D B c fut' m n] by blast
  then show ?thesis unfolding reach_Cons(1) .
qed

lemma reach_drop: "reach c C fut n \<Longrightarrow> reach c (C - {q}) fut (Suc n)"
proof (induction rule: reach.induct)
  case (reach_Nil C n)
  show ?case by (rule reach.reach_Nil)
next
  case (reach_Cons x D C fut m n)
  show ?case
  proof (cases "x = q")
    case True
    have "D \<subseteq> insert x (C - {q})" using reach_Cons.hyps(2) True by auto
    moreover have "m + (if x \<in> C - {q} then 0 else 1) \<le> Suc n"
      using reach_Cons.hyps(6) True by (auto split: if_splits)
    ultimately show ?thesis
      using reach_Cons.hyps(1,3,4,5) reach.reach_Cons[of x D "C - {q}" c fut m "Suc n"] by blast
  next
    case False
    have "x \<in> D - {q}" using reach_Cons.hyps(1) False by simp
    moreover have "D - {q} \<subseteq> insert x (C - {q})" using reach_Cons.hyps(2) by auto
    moreover have "finite (D - {q})" using reach_Cons.hyps(3) by simp
    moreover have "int (card (D - {q})) \<le> c"
      using reach_Cons.hyps(3,4) card_Diff1_le[of D q] by linarith
    moreover note reach_Cons.IH
    moreover have "Suc m + (if x \<in> C - {q} then 0 else 1) \<le> Suc n"
      using reach_Cons.hyps(6) False by (auto split: if_splits)
    ultimately show ?thesis by (rule reach.reach_Cons)
  qed
qed

lemma first_pos_Cons_other: "y \<noteq> x \<Longrightarrow> first_pos y (x # fut) = Suc (first_pos y fut)"
  by simp

lemma reach_exchange:
  "reach c C fut n \<Longrightarrow> q \<in> C \<Longrightarrow> p' \<notin> C \<Longrightarrow> first_pos p' fut \<le> first_pos q fut
     \<Longrightarrow> reach c (insert p' (C - {q})) fut n"
proof (induction rule: reach.induct)
  case (reach_Nil C n)
  show ?case by (rule reach.reach_Nil)
next
  case (reach_Cons x D C fut m n)
  note q = \<open>q \<in> C\<close> and p = \<open>p' \<notin> C\<close> and le = \<open>first_pos p' (x # fut) \<le> first_pos q (x # fut)\<close>
  have xq: "x \<noteq> q"
  proof
    assume "x = q"
    then have "first_pos p' (x # fut) = 0" using le by simp
    then have "p' = x" by (simp split: if_splits)
    with \<open>x = q\<close> q p show False by simp
  qed
  let ?C' = "insert p' (C - {q})"
  show ?case
  proof (cases "x = p'")
    case True
    have "x \<in> D - {q}" using reach_Cons.hyps(1) xq by simp
    moreover have "D - {q} \<subseteq> insert x ?C'" using reach_Cons.hyps(2) True by auto
    moreover have "finite (D - {q})" using reach_Cons.hyps(3) by simp
    moreover have "int (card (D - {q})) \<le> c"
      using reach_Cons.hyps(3,4) card_Diff1_le[of D q] by linarith
    moreover have "reach c (D - {q}) fut (Suc m)" by (rule reach_drop[OF reach_Cons.hyps(5)])
    moreover have "Suc m + (if x \<in> ?C' then 0 else 1) \<le> n"
      using reach_Cons.hyps(6) True p by (auto split: if_splits)
    ultimately show ?thesis by (rule reach.reach_Cons)
  next
    case False
    have le': "first_pos p' fut \<le> first_pos q fut" using le False xq by simp
    have pD: "p' \<notin> D" using reach_Cons.hyps(2) p False by auto
    have cost: "m + (if x \<in> ?C' then 0 else 1) \<le> n"
      using reach_Cons.hyps(6) False xq by (auto split: if_splits)
    show ?thesis
    proof (cases "q \<in> D")
      case True
      let ?D' = "insert p' (D - {q})"
      have "x \<in> ?D'" using reach_Cons.hyps(1) xq by simp
      moreover have "?D' \<subseteq> insert x ?C'" using reach_Cons.hyps(2) by auto
      moreover have "finite ?D'" using reach_Cons.hyps(3) by simp
      moreover have "int (card ?D') \<le> c"
      proof -
        have "card (D - {q}) = card D - 1" using reach_Cons.hyps(3) True by simp
        moreover have "0 < card D" using reach_Cons.hyps(3) True by (auto simp: card_gt_0_iff)
        moreover have "card ?D' = Suc (card (D - {q}))"
          using reach_Cons.hyps(3) pD by simp
        ultimately show ?thesis using reach_Cons.hyps(4) by linarith
      qed
      moreover have "reach c ?D' fut m" using reach_Cons.IH[OF True pD le'] .
      ultimately show ?thesis using cost by (rule reach.reach_Cons)
    next
      case qD: False
      have "D \<subseteq> insert x ?C'" using reach_Cons.hyps(2) qD by auto
      with reach_Cons.hyps(1) show ?thesis
        using reach_Cons.hyps(3,4,5) cost by (rule reach.reach_Cons)
    qed
  qed
qed

lemma reach_opt_hit:
  assumes "reach c C (x # fut) n" and "x \<in> C"
  shows "reach c C fut n"
  using assms(1)
proof (rule reach_ConsE)
  fix D m
  assume "x \<in> D" "D \<subseteq> insert x C" "reach c D fut m" "m + (if x \<in> C then 0 else 1) \<le> n"
  then have "reach c C fut m" using assms(2) by (auto intro: reach_superset)
  then show ?thesis using \<open>m + (if x \<in> C then 0 else 1) \<le> n\<close> assms(2)
    by (auto intro: reach_more_misses)
qed

lemma reach_opt_room:
  assumes "reach c C (x # fut) n" and "x \<notin> C"
  shows "\<exists>m. Suc m \<le> n \<and> reach c (insert x C) fut m"
  using assms(1)
proof (rule reach_ConsE)
  fix D m
  assume "D \<subseteq> insert x C" "reach c D fut m" "m + (if x \<in> C then 0 else 1) \<le> n"
  then show ?thesis using assms(2) by (auto intro: reach_superset)
qed

lemma reach_opt_evict:
  assumes r: "reach c C (x # fut) n" and x: "x \<notin> C" and fin: "finite C"
    and full: "c \<le> int (card C)" and q: "q \<in> C"
    and far: "\<forall>y \<in> C. first_pos y fut \<le> first_pos q fut"
  shows "\<exists>m. Suc m \<le> n \<and> reach c (insert x (C - {q})) fut m"
  using r
proof (rule reach_ConsE)
  fix D m
  assume xD: "x \<in> D" and sub: "D \<subseteq> insert x C" and finD: "finite D"
    and cardD: "int (card D) \<le> c" and rD: "reach c D fut m"
    and cost: "m + (if x \<in> C then 0 else 1) \<le> n"
  have mn: "Suc m \<le> n" using cost x by simp
  show ?thesis
  proof (cases "q \<in> D")
    case False
    then have "D \<subseteq> insert x (C - {q})" using sub by auto
    then show ?thesis using rD mn by (auto intro: reach_superset)
  next
    case True
    have "card (D - {x}) < card D" using xD finD by (rule card_Diff1_less[rotated])
    then have "card (D - {x}) < card C" using cardD full by linarith
    moreover have "D - {x} \<subseteq> C" using sub by auto
    ultimately have "D - {x} \<noteq> C" by auto
    then obtain y where y: "y \<in> C" "y \<notin> D" using \<open>D - {x} \<subseteq> C\<close> x by auto
    let ?E = "insert x C - {y}"
    have "D \<subseteq> ?E" using sub y by auto
    then have rE: "reach c ?E fut m" using rD by (rule reach_superset[rotated])
    have "q \<in> ?E" using q True y by auto
    moreover have "y \<notin> ?E" by simp
    moreover have "first_pos y fut \<le> first_pos q fut" using far y by simp
    ultimately have "reach c (insert y (?E - {q})) fut m"
      using rE by (auto intro: reach_exchange)
    moreover have "insert y (?E - {q}) = insert x (C - {q})"
      using y q x True by auto
    ultimately show ?thesis using mn by auto
  qed
qed

subsection \<open>OPT against every admitting policy; LRU is one\<close>

lemma hits_misses: "hits_in hs + misses_in hs = length hs"
  by (induction hs) (auto simp: hits_in_def misses_in_def)

lemma misses_in_simps [simp]:
  "misses_in [] = 0" "misses_in (h # hs) = (if h then 0 else 1) + misses_in hs"
  by (simp_all add: misses_in_def)

lemma hits_in_simps [simp]:
  "hits_in [] = 0" "hits_in (h # hs) = (if h then 1 else 0) + hits_in hs"
  by (simp_all add: hits_in_def)

lemma nu_of_Cons_other: "y \<noteq> x \<Longrightarrow> nu_of i (x # fut) y = nu_of (Suc i) fut y"
  by (simp add: nu_of_def)

lemma nu_of_order:
  "\<not> nu_less (nu_of i fut q) (nu_of i fut y) \<Longrightarrow> first_pos y fut \<le> first_pos q fut"
  using first_pos_le[of y fut] first_pos_less_iff[of q fut] first_pos_absent[of q fut]
  by (auto simp: nu_of_def split: if_splits)

lemma opt_sync_step:
  assumes sync: "opt_sync s i (x # fut)"
  shows "\<exists>s' ev. access_page s x (nu_of (Suc i) fut x) = Inr (s', x \<in> OptimalCache.cache s, ev)
     \<and> opt_sync s' (Suc i) fut
     \<and> OptimalCache.capacity s' = OptimalCache.capacity s
     \<and> OptimalCache.cache s'
          = (if x \<in> OptimalCache.cache s then OptimalCache.cache s
             else insert x (OptimalCache.cache s - set_option ev))
     \<and> (\<forall>v. ev = Some v \<longrightarrow> x \<notin> OptimalCache.cache s \<and> v \<in> OptimalCache.cache s
           \<and> OptimalCache.capacity s \<le> int (card (OptimalCache.cache s))
           \<and> (\<forall>y \<in> OptimalCache.cache s. first_pos y fut \<le> first_pos v fut))
     \<and> (ev = None \<longrightarrow> x \<in> OptimalCache.cache s
           \<or> int (card (OptimalCache.cache s)) < OptimalCache.capacity s)"
proof -
  let ?C = "OptimalCache.cache s"
  from sync have inv: "opt_inv s" and cap: "0 < OptimalCache.capacity s"
    and bound: "int (card ?C) \<le> OptimalCache.capacity s"
    and pnu: "\<And>y. y \<in> ?C \<Longrightarrow> page_next_use s y = Some (nu_of i (x # fut) y)"
    by (auto simp: opt_sync_def)
  from inv have fin: "finite ?C" by (simp add: opt_inv_def)
  from access_page_step[OF inv, of x "nu_of (Suc i) fut x"] obtain s' ev where
    ap: "access_page s x (nu_of (Suc i) fut x) = Inr (s', x \<in> ?C, ev)"
    and inv': "opt_inv s'" and cap': "OptimalCache.capacity s' = OptimalCache.capacity s"
    and c': "OptimalCache.cache s' = (if x \<in> ?C then ?C else insert x (?C - set_option ev))"
    and p': "\<forall>y \<in> OptimalCache.cache s'.
           page_next_use s' y = (if y = x then Some (nu_of (Suc i) fut x) else page_next_use s y)"
    and vic: "\<forall>v. ev = Some v \<longrightarrow> x \<notin> ?C \<and> v \<in> ?C
           \<and> OptimalCache.capacity s \<le> int (card ?C)
           \<and> (\<forall>y \<in> ?C. \<forall>ny nv. page_next_use s y = Some ny
                 \<longrightarrow> page_next_use s v = Some nv \<longrightarrow> \<not> entry_less (ny, y) (nv, v))"
    and none: "ev = None \<longrightarrow> x \<in> ?C \<or> int (card ?C) < OptimalCache.capacity s \<or> ?C = {}"
    by blast
  have far: "first_pos y fut \<le> first_pos v fut" if "ev = Some v" and y: "y \<in> ?C" for v y
  proof -
    from vic that have v: "v \<in> ?C" and x: "x \<notin> ?C"
      and "\<not> entry_less (nu_of i (x # fut) y, y) (nu_of i (x # fut) v, v)"
      using pnu by auto
    then have "\<not> nu_less (nu_of i (x # fut) v) (nu_of i (x # fut) y)"
      by (simp add: entry_less_def)
    moreover have "y \<noteq> x" "v \<noteq> x" using x y v by auto
    ultimately have "\<not> nu_less (nu_of (Suc i) fut v) (nu_of (Suc i) fut y)"
      by (simp add: nu_of_Cons_other)
    then show ?thesis by (rule nu_of_order)
  qed
  have bound': "int (card (OptimalCache.cache s')) \<le> OptimalCache.capacity s"
  proof (cases "x \<in> ?C")
    case True
    then show ?thesis using c' bound by simp
  next
    case False
    show ?thesis
    proof (cases ev)
      case None
      then have "int (card ?C) < OptimalCache.capacity s" using none False cap by auto
      then show ?thesis using c' None False fin by simp
    next
      case (Some v)
      then have v: "v \<in> ?C" using vic by simp
      have "card (insert x (?C - {v})) = card ?C"
        using fin v False
        by (metis Diff_iff card.remove card_insert_disjoint finite_Diff)
      then show ?thesis using c' Some False bound by simp
    qed
  qed
  have pnu': "page_next_use s' y = Some (nu_of (Suc i) fut y)" if "y \<in> OptimalCache.cache s'" for y
  proof (cases "y = x")
    case True
    then show ?thesis using p' that by simp
  next
    case False
    then have "y \<in> ?C" using that c' by (auto split: if_splits)
    then show ?thesis using p' that False pnu[of y] by (simp add: nu_of_Cons_other)
  qed
  have "opt_sync s' (Suc i) fut"
    using inv' cap cap' bound' pnu' by (simp add: opt_sync_def)
  moreover have "ev = None \<longrightarrow> x \<in> ?C \<or> int (card ?C) < OptimalCache.capacity s"
    using none cap by auto
  ultimately show ?thesis using ap cap' c' vic far by auto
qed

lemma opt_run_beats_reach:
  "opt_sync s i fut \<Longrightarrow> reach (OptimalCache.capacity s) (OptimalCache.cache s) fut n
   \<Longrightarrow> \<exists>s' hs. opt_run s (annotate i fut) = Inr (s', hs) \<and> length hs = length fut
          \<and> misses_in hs \<le> n"
proof (induction fut arbitrary: s i n)
  case Nil
  then show ?case by simp
next
  case (Cons x fut)
  let ?C = "OptimalCache.cache s"
  let ?c = "OptimalCache.capacity s"
  from opt_sync_step[OF Cons.prems(1)] obtain s' ev where
    ap: "access_page s x (nu_of (Suc i) fut x) = Inr (s', x \<in> ?C, ev)"
    and sync': "opt_sync s' (Suc i) fut"
    and cap': "OptimalCache.capacity s' = ?c"
    and c': "OptimalCache.cache s' = (if x \<in> ?C then ?C else insert x (?C - set_option ev))"
    and vic: "\<forall>v. ev = Some v \<longrightarrow> x \<notin> ?C \<and> v \<in> ?C \<and> ?c \<le> int (card ?C)
           \<and> (\<forall>y \<in> ?C. first_pos y fut \<le> first_pos v fut)"
    and none: "ev = None \<longrightarrow> x \<in> ?C \<or> int (card ?C) < ?c"
    by blast
  from Cons.prems(1) have fin: "finite ?C" by (simp add: opt_sync_def opt_inv_def)
  have "\<exists>m. m + (if x \<in> ?C then 0 else 1) \<le> n \<and> reach ?c (OptimalCache.cache s') fut m"
  proof (cases "x \<in> ?C")
    case True
    then show ?thesis using reach_opt_hit[OF Cons.prems(2) True] c' by auto
  next
    case False
    show ?thesis
    proof (cases ev)
      case None
      then show ?thesis using reach_opt_room[OF Cons.prems(2) False] c' False by auto
    next
      case (Some v)
      with vic have "v \<in> ?C" "?c \<le> int (card ?C)" "\<forall>y \<in> ?C. first_pos y fut \<le> first_pos v fut"
        by auto
      from reach_opt_evict[OF Cons.prems(2) False fin this(2) this(1) this(3)]
      show ?thesis using c' False Some by auto
    qed
  qed
  then obtain m where m: "m + (if x \<in> ?C then 0 else 1) \<le> n"
    and r: "reach ?c (OptimalCache.cache s') fut m" by blast
  from Cons.IH[OF sync', of m] r cap' obtain s'' hs where
    run: "opt_run s' (annotate (Suc i) fut) = Inr (s'', hs)" and len: "length hs = length fut"
    and le: "misses_in hs \<le> m" by auto
  show ?case using ap run len le m by (auto split: if_splits)
qed

lemma lru_step:
  assumes inv: "lru_inv s" and cap: "0 < max_capacity s"
  shows "\<exists>s'. access_or_update_cache s k = Inr (s', k \<in> set (cache_store s))
     \<and> lru_inv s' \<and> max_capacity s' = max_capacity s
     \<and> k \<in> set (cache_store s') \<and> set (cache_store s') \<subseteq> insert k (set (cache_store s))"
proof (cases "k \<in> set (cache_store s)")
  case True
  then show ?thesis using inv length_pos_if_in_set[OF True]
    by (auto simp: access_or_update_cache_def od_move_to_end_def lru_inv_def length_remove1)
next
  case False
  show ?thesis
  proof (cases "cache_store s")
    case Nil
    then show ?thesis using False cap
      by (auto simp: access_or_update_cache_def od_setitem_def lru_inv_def od_popitem_first_def)
  next
    case (Cons old rest)
    then show ?thesis using False inv
      by (auto simp: access_or_update_cache_def od_setitem_def lru_inv_def od_popitem_first_def)
  qed
qed

lemma lru_run_reach:
  "lru_inv s \<Longrightarrow> 0 < max_capacity s \<Longrightarrow>
     \<exists>s' hs. lru_run s ks = Inr (s', hs) \<and> lru_inv s' \<and> max_capacity s' = max_capacity s
        \<and> length hs = length ks
        \<and> reach (max_capacity s) (set (cache_store s)) ks (misses_in hs)"
proof (induction ks arbitrary: s)
  case Nil
  then show ?case by (simp add: reach.reach_Nil)
next
  case (Cons k ks)
  from lru_step[OF Cons.prems, of k] obtain s1 where
    st: "access_or_update_cache s k = Inr (s1, k \<in> set (cache_store s))"
    and inv1: "lru_inv s1" and cap1: "max_capacity s1 = max_capacity s"
    and k1: "k \<in> set (cache_store s1)"
    and sub: "set (cache_store s1) \<subseteq> insert k (set (cache_store s))" by blast
  from Cons.IH[OF inv1] Cons.prems(2) cap1 obtain s' hs where
    run: "lru_run s1 ks = Inr (s', hs)" and inv': "lru_inv s'"
    and cap': "max_capacity s' = max_capacity s" and len: "length hs = length ks"
    and r: "reach (max_capacity s) (set (cache_store s1)) ks (misses_in hs)" by auto
  have card: "int (card (set (cache_store s1))) \<le> max_capacity s"
    using inv1 cap1 by (simp add: lru_inv_def distinct_card)
  have "reach (max_capacity s) (set (cache_store s)) (k # ks)
          (misses_in ((k \<in> set (cache_store s)) # hs))"
    using k1 sub _ card r
  proof (rule reach.reach_Cons)
    show "finite (set (cache_store s1))" by simp
    show "misses_in hs + (if k \<in> set (cache_store s) then 0 else 1)
            \<le> misses_in ((k \<in> set (cache_store s)) # hs)" by simp
  qed
  then show ?case using st run inv' cap' len by simp
qed

subsection \<open>What the drivers count\<close>

lemma access_page_flag:
  "access_page s pg nu = Inr (s', h, ev) \<Longrightarrow> h = is_hit s pg"
  by (auto simp: access_page_def is_hit_def split: if_splits sum.splits)

lemma lru_loop_summary:
  "case lru_run s (map fst rows) of
     Inl e \<Rightarrow> lru_loop s (rr, rm, wr, wm) rows = Inl e
   | Inr (s', hs) \<Rightarrow>
       \<exists>rr' rm' wr' wm'. lru_loop s (rr, rm, wr, wm) rows = Inr (s', (rr', rm', wr', wm'))
          \<and> rr' + wr' = rr + wr + int (length rows)
          \<and> rm' + wm' = rm + wm + int (misses_in hs)"
proof (induction rows arbitrary: s rr rm wr wm)
  case Nil
  then show ?case by simp
next
  case (Cons r rows)
  obtain k operation where r: "r = (k, operation)" by (cases r)
  show ?case
  proof (cases "access_or_update_cache s k")
    case (Inl e)
    then show ?thesis by (simp add: r)
  next
    case (Inr a)
    obtain s1 hit where a: "a = (s1, hit)" by (cases a)
    show ?thesis
    proof (cases "operation = ''Read''")
      case True
      from Cons.IH[of s1 "rr + 1" "if \<not> hit then rm + 1 else rm" wr wm]
      show ?thesis using Inr a r True
        by (cases "lru_run s1 (map fst rows)") (auto split: if_splits)
    next
      case False
      from Cons.IH[of s1 rr rm "wr + 1" "if \<not> hit then wm + 1 else wm"]
      show ?thesis using Inr a r False
        by (cases "lru_run s1 (map fst rows)") (auto split: if_splits)
    qed
  qed
qed

lemma belady_loop_summary:
  "length nus = length rows \<Longrightarrow>
   (case opt_run s (zip (map fst rows) nus) of
     Inl e \<Rightarrow> belady_loop s (th, tm, rh, rm, wh, wm) rows nus = Inl e
   | Inr (s', hs) \<Rightarrow>
       \<exists>rh' rm' wh' wm'. belady_loop s (th, tm, rh, rm, wh, wm) rows nus
             = Inr (s', (th + int (hits_in hs), tm + int (misses_in hs), rh', rm', wh', wm'))
          \<and> rh' + wh' = rh + wh + int (hits_in hs)
          \<and> rm' + wm' = rm + wm + int (misses_in hs))"
proof (induction rows arbitrary: s nus th tm rh rm wh wm)
  case Nil
  then show ?case by simp
next
  case (Cons r rows)
  obtain k req_type where r: "r = (k, req_type)" by (cases r)
  from Cons.prems obtain nu nus' where nus: "nus = nu # nus'" and len: "length nus' = length rows"
    by (cases nus) auto
  show ?case
  proof (cases "access_page s k nu")
    case (Inl e)
    then show ?thesis by (simp add: r nus)
  next
    case (Inr a)
    obtain s1 hit ev where a: "a = (s1, hit, ev)" by (cases a)
    have flag: "hit = is_hit s k" using Inr a by (auto dest: access_page_flag)
    show ?thesis
    proof (cases hit)
      case True
      show ?thesis
      proof (cases "req_type = ''read''")
        case rd: True
        from Cons.IH[OF len, of s1 "th + 1" tm "rh + 1" rm wh wm]
        show ?thesis using Inr a r nus True rd flag
          by (cases "opt_run s1 (zip (map fst rows) nus')") auto
      next
        case wrt: False
        from Cons.IH[OF len, of s1 "th + 1" tm rh rm "wh + 1" wm]
        show ?thesis using Inr a r nus True wrt flag
          by (cases "opt_run s1 (zip (map fst rows) nus')") auto
      qed
    next
      case False
      show ?thesis
      proof (cases "req_type = ''read''")
        case rd: True
        from Cons.IH[OF len, of s1 th "tm + 1" rh "rm + 1" wh wm]
        show ?thesis using Inr a r nus False rd flag
          by (cases "opt_run s1 (zip (map fst rows) nus')") auto
      next
        case wrt: False
        from Cons.IH[OF len, of s1 th "tm + 1" rh rm wh "wm + 1"]
        show ?thesis using Inr a r nus False wrt flag
          by (cases "opt_run s1 (zip (map fst rows) nus')") auto
      qed
    qed
  qed
qed

subsection \<open>C1: Belady against the other policies\<close>

text \<open>
  C1, amended: for every request sequence and every positive capacity, the total hit
  count the Belady driver reports (with the next-use array it precomputes) is at least
  the total hit count the LRU driver reports on the same keys. The two drivers may be
  given different operation columns.
\<close>

theorem belady_at_least_lru:
  assumes c: "0 < c" and keys: "map fst rowsB = map fst rowsL"
  shows "\<exists>sB stB sL stL.
     CacheSimulator_simulate c rowsB (precompute_next_use rowsB) = Inr (sB, stB)
     \<and> simulate_lru_policy (LRUCache_init c) rowsL = Inr (sL, stL)
     \<and> Total_Hits stL \<le> Total_Hits stB"
proof -
  let ?ks = "map fst rowsL"
  let ?n = "length rowsL"
  have linv: "lru_inv (LRUCache_init c)" and lcap: "0 < max_capacity (LRUCache_init c)"
    using c by (simp_all add: lru_inv_def LRUCache_init_def)
  from lru_run_reach[OF linv lcap, of ?ks] obtain sL hsL where
    lrun: "lru_run (LRUCache_init c) ?ks = Inr (sL, hsL)" and llen: "length hsL = ?n"
    and lreach: "reach c {} ?ks (misses_in hsL)"
    by (auto simp: LRUCache_init_def)
  from lru_loop_summary[where s="LRUCache_init c" and rows=rowsL and rr=0 and rm=0 and wr=0 and wm=0] lrun obtain rr rm wr wm where
    lloop: "lru_loop (LRUCache_init c) (0, 0, 0, 0) rowsL = Inr (sL, (rr, rm, wr, wm))"
    and lreq: "rr + wr = int ?n" and lmiss: "rm + wm = int (misses_in hsL)"
    by auto
  have lsim: "simulate_lru_policy (LRUCache_init c) rowsL
      = Inr (sL, collect_statistics rr rm wr wm)"
    using lloop by (simp add: simulate_lru_policy_def)
  have lhits: "Total_Hits (collect_statistics rr rm wr wm) = int ?n - int (misses_in hsL)"
    using lreq lmiss by (simp add: collect_statistics_def Let_def)
  have osync: "opt_sync (OptimalCache_init c) 0 ?ks"
    using c by (simp add: opt_sync_def opt_inv_def heap_covers_def OptimalCache_init_def)
  have oreach: "reach (OptimalCache.capacity (OptimalCache_init c))
      (OptimalCache.cache (OptimalCache_init c)) ?ks (misses_in hsL)"
    using lreach by (simp add: OptimalCache_init_def)
  from opt_run_beats_reach[OF osync oreach] obtain sB hsB where
    orun: "opt_run (OptimalCache_init c) (annotate 0 ?ks) = Inr (sB, hsB)"
    and olen: "length hsB = ?n" and ole: "misses_in hsB \<le> misses_in hsL"
    by auto
  have zp: "zip (map fst rowsB) (precompute_next_use rowsB) = annotate 0 ?ks"
    using zip_precompute[of rowsB] keys by simp
  have plen: "length (precompute_next_use rowsB) = length rowsB"
    by (rule precompute_next_use_length)
  from belady_loop_summary[OF plen, where s="OptimalCache_init c" and th=0 and tm=0 and rh=0 and rm=0 and wh=0 and wm=0] orun zp
  obtain rh rm' wh wm' where
    oloop: "belady_loop (OptimalCache_init c) (0, 0, 0, 0, 0, 0) rowsB (precompute_next_use rowsB)
       = Inr (sB, (int (hits_in hsB), int (misses_in hsB), rh, rm', wh, wm'))"
    by auto
  let ?stB = "\<lparr>Read_Requests = rh + rm', Read_Hits = rh, Read_Misses = rm',
     Write_Requests = wh + wm', Write_Hits = wh, Write_Misses = wm',
     Total_Requests = int (length rowsB), Total_Hits = int (hits_in hsB),
     Total_Misses = int (misses_in hsB)\<rparr>"
  have osim: "CacheSimulator_simulate c rowsB (precompute_next_use rowsB) = Inr (sB, ?stB)"
    using oloop by (simp add: CacheSimulator_simulate_def)
  have "int ?n - int (misses_in hsL) \<le> int (hits_in hsB)"
    using hits_misses[of hsB] olen ole by linarith
  then have "Total_Hits (collect_statistics rr rm wr wm) \<le> Total_Hits ?stB"
    using lhits by simp
  then show ?thesis using osim lsim by blast
qed

theorem belady_at_least_lru_witness:
  "(0::int) < 2
   \<and> map fst [(1::int, ''read''), (2, ''write''), (1, ''read'')]
       = map fst [(1::int, ''Read''), (2, ''Read''), (1, ''Write'')]
   \<and> (\<exists>sB stB sL stL.
         CacheSimulator_simulate 2 [(1, ''read''), (2, ''write''), (1, ''read'')]
             (precompute_next_use [(1, ''read''), (2, ''write''), (1, ''read'')]) = Inr (sB, stB)
         \<and> simulate_lru_policy (LRUCache_init 2) [(1, ''Read''), (2, ''Read''), (1, ''Write'')]
             = Inr (sL, stL)
         \<and> Total_Hits stL \<le> Total_Hits stB)"
  using belady_at_least_lru[of 2 "[(1, ''read''), (2, ''write''), (1, ''read'')]"
      "[(1, ''Read''), (2, ''Read''), (1, ''Write'')]"]
  by simp

text \<open>
  C1, as the claim states it, fails against every other policy of the suite, because
  each of them can leave a missed key out of its cache while OPT brings every missed key
  in. With capacity 1 on the keys 1,2,1,3,1 OPT has no hit and both N-Hit variants (with
  their default parameters) have two; with capacity 1 on the keys 1,1,2,1 OPT has one hit
  and ARC has two; with capacity 10 on \<open>larc_trace\<close> OPT has 109 hits and LARC has 110.
\<close>

theorem belady_beaten_by_admission_policies:
  "opt_total_hits 1 [1, 2, 1, 3, 1] = Some 0
   \<and> nhit_total_hits 1 80 2 [1, 2, 1, 3, 1] = Some 2
   \<and> nhit_lru_total_hits 1 80 2 2 [1, 2, 1, 3, 1] = Some 2
   \<and> opt_total_hits 1 [1, 1, 2, 1] = Some 1
   \<and> arc_total_hits 1 [1, 1, 2, 1] = Some 2
   \<and> opt_total_hits 10 larc_trace = Some 109
   \<and> larc_total_hits 10 larc_trace = Some 110"
  by code_simp

subsection \<open>C7: resident keys have a next use, and only resident pages are evicted\<close>

lemma evict_loop_returns:
  "OptimalCache.cache s \<subseteq> dom (page_next_use s) \<Longrightarrow> \<exists>s' ev. evict_loop s = Inr (s', ev)"
proof (induction s rule: evict_loop.induct)
  case (1 s)
  show ?case
  proof (cases "heappop (heap s)")
    case None
    then show ?thesis by (simp add: evict_loop_empty)
  next
    case (Some a)
    obtain nu pg h' where a: "a = ((nu, pg), h')" by (cases a) auto
    show ?thesis
    proof (cases "pg \<in> OptimalCache.cache s \<and> dict_get (page_next_use s) pg (Fin (- 1)) = nu")
      case True
      then obtain n0 where "page_next_use s pg = Some n0" using "1.prems" by auto
      then show ?thesis using evict_loop_valid[OF Some[unfolded a]] True by simp
    next
      case False
      have "OptimalCache.cache (s\<lparr>heap := h'\<rparr>) \<subseteq> dom (page_next_use (s\<lparr>heap := h'\<rparr>))"
        using "1.prems" by simp
      from "1.IH"[OF Some a[symmetric] refl False this] show ?thesis
        unfolding evict_loop_stale[OF Some[unfolded a] False] .
    qed
  qed
qed

lemma access_page_dom:
  assumes "OptimalCache.cache s \<subseteq> dom (page_next_use s)"
  shows "\<exists>s' h ev. access_page s pg nu = Inr (s', h, ev)
           \<and> OptimalCache.cache s' \<subseteq> dom (page_next_use s')"
proof (cases "pg \<in> OptimalCache.cache s")
  case True
  then show ?thesis using assms by (auto simp: access_page_def)
next
  case False
  show ?thesis
  proof (cases "OptimalCache.capacity s \<le> int (card (OptimalCache.cache s))")
    case True
    from evict_loop_returns[OF assms] obtain s1 ev where ev: "evict_loop s = Inr (s1, ev)"
      by blast
    from evict_loop_result[OF ev] assms
    have "OptimalCache.cache s1 \<subseteq> dom (page_next_use s1)"
      by (auto split: option.splits)
    then show ?thesis using False True ev by (auto simp: access_page_def)
  next
    case room: False
    then show ?thesis using False assms by (auto simp: access_page_def)
  qed
qed

lemma opt_run_dom:
  "OptimalCache.cache s \<subseteq> dom (page_next_use s) \<Longrightarrow>
     \<exists>s' hs. opt_run s rs = Inr (s', hs) \<and> OptimalCache.cache s' \<subseteq> dom (page_next_use s')"
proof (induction rs arbitrary: s)
  case Nil
  then show ?case by simp
next
  case (Cons r rs)
  obtain pg nu where r: "r = (pg, nu)" by (cases r)
  from access_page_dom[OF Cons.prems, of pg nu] obtain s1 h ev where
    ap: "access_page s pg nu = Inr (s1, h, ev)"
    and d1: "OptimalCache.cache s1 \<subseteq> dom (page_next_use s1)" by blast
  from Cons.IH[OF d1] obtain s' hs where "opt_run s1 rs = Inr (s', hs)"
    and "OptimalCache.cache s' \<subseteq> dom (page_next_use s')" by blast
  then show ?case using ap r by simp
qed

lemma access_page_victim:
  "case access_page s pg nu of
     Inl e \<Rightarrow> True
   | Inr (s', hit, None) \<Rightarrow>
       OptimalCache.cache s' = (if hit then OptimalCache.cache s else insert pg (OptimalCache.cache s))
   | Inr (s', hit, Some v) \<Rightarrow>
       \<not> hit \<and> v \<in> OptimalCache.cache s
       \<and> (\<exists>nv. page_next_use s v = Some nv \<and> (nv, v) \<in> set (heap s))
       \<and> OptimalCache.cache s' = insert pg (OptimalCache.cache s - {v})"
proof (cases "pg \<in> OptimalCache.cache s")
  case True
  then show ?thesis by (auto simp: access_page_def)
next
  case False
  show ?thesis
  proof (cases "OptimalCache.capacity s \<le> int (card (OptimalCache.cache s))")
    case True
    show ?thesis
    proof (cases "evict_loop s")
      case (Inl e)
      then show ?thesis using False True by (simp add: access_page_def)
    next
      case (Inr a)
      obtain s1 ev where a: "a = (s1, ev)" by (cases a)
      from evict_loop_result[OF Inr[unfolded a]] show ?thesis
        using False True Inr a by (cases ev) (auto simp: access_page_def)
    qed
  next
    case room: False
    then show ?thesis using False by (auto simp: access_page_def)
  qed
qed

text \<open>
  C7: a Belady engine in a state where every resident key has an entry in
  \<open>page_next_use\<close> serves an access without raising and ends in such a state again, and so
  does every run from a fresh engine, whatever the capacity and the next-use values. For
  an access from any state, a page reported as evicted was resident, the heap held its
  entry with the next use that \<open>page_next_use\<close> recorded for it, and it is the only page
  that leaves the cache: every other popped entry was discarded.
\<close>

theorem belady_victims_are_resident:
  "(OptimalCache.cache s \<subseteq> dom (page_next_use s) \<longrightarrow>
      (\<exists>s' h ev. access_page s pg nu = Inr (s', h, ev)
           \<and> OptimalCache.cache s' \<subseteq> dom (page_next_use s')))
   \<and> (\<exists>s' hs. opt_run (OptimalCache_init c) rs = Inr (s', hs)
           \<and> OptimalCache.cache s' \<subseteq> dom (page_next_use s'))
   \<and> (case access_page s pg nu of
         Inl e \<Rightarrow> True
       | Inr (s', hit, None) \<Rightarrow>
           OptimalCache.cache s'
             = (if hit then OptimalCache.cache s else insert pg (OptimalCache.cache s))
       | Inr (s', hit, Some v) \<Rightarrow>
           \<not> hit \<and> v \<in> OptimalCache.cache s
           \<and> (\<exists>nv. page_next_use s v = Some nv \<and> (nv, v) \<in> set (heap s))
           \<and> OptimalCache.cache s' = insert pg (OptimalCache.cache s - {v}))"
proof (intro conjI impI)
  assume "OptimalCache.cache s \<subseteq> dom (page_next_use s)"
  then show "\<exists>s' h ev. access_page s pg nu = Inr (s', h, ev)
           \<and> OptimalCache.cache s' \<subseteq> dom (page_next_use s')"
    by (rule access_page_dom)
next
  have "OptimalCache.cache (OptimalCache_init c) \<subseteq> dom (page_next_use (OptimalCache_init c))"
    by (simp add: OptimalCache_init_def)
  then show "\<exists>s' hs. opt_run (OptimalCache_init c) rs = Inr (s', hs)
           \<and> OptimalCache.cache s' \<subseteq> dom (page_next_use s')"
    by (rule opt_run_dom)
next
  show "case access_page s pg nu of
         Inl e \<Rightarrow> True
       | Inr (s', hit, None) \<Rightarrow>
           OptimalCache.cache s'
             = (if hit then OptimalCache.cache s else insert pg (OptimalCache.cache s))
       | Inr (s', hit, Some v) \<Rightarrow>
           \<not> hit \<and> v \<in> OptimalCache.cache s
           \<and> (\<exists>nv. page_next_use s v = Some nv \<and> (nv, v) \<in> set (heap s))
           \<and> OptimalCache.cache s' = insert pg (OptimalCache.cache s - {v})"
    by (rule access_page_victim)
qed

lemma stale_eval:
  "access_page stale_state 2 INFINITY
     = Inr (\<lparr>OptimalCache.capacity = 1, OptimalCache.cache = {2}, heap = [(INFINITY, 2)],
            page_next_use = [2 \<mapsto> INFINITY], seen_pages = {}\<rparr>, False, Some 1)"
  apply (simp add: stale_state_def access_page_def heappush_def)
  apply (simp add: evict_loop.simps heappop_def entry_less_def dict_get_def heappush_def)
  done

theorem belady_victims_are_resident_witness:
  "OptimalCache.cache stale_state \<subseteq> dom (page_next_use stale_state)
   \<and> access_page stale_state 2 INFINITY
       = Inr (\<lparr>OptimalCache.capacity = 1, OptimalCache.cache = {2}, heap = [(INFINITY, 2)],
              page_next_use = [2 \<mapsto> INFINITY], seen_pages = {}\<rparr>, False, Some 1)
   \<and> (1::int) \<in> OptimalCache.cache stale_state
   \<and> (\<exists>nv. page_next_use stale_state 1 = Some nv \<and> (nv, 1) \<in> set (heap stale_state))
   \<and> (\<exists>s' hs. opt_run (OptimalCache_init 1) [(1, Fin 5), (2, INFINITY)] = Inr (s', hs)
           \<and> OptimalCache.cache s' \<subseteq> dom (page_next_use s'))"
  using belady_victims_are_resident[of stale_state 2 INFINITY 1 "[(1, Fin 5), (2, INFINITY)]"]
    stale_eval
  by (simp add: stale_state_def)

subsection \<open>C6 and C3: the ARC engine\<close>

lemma arc_balance_done:
  "\<not> int (length (T1 s)) + int (length (T2 s)) > ARCCache.cache_size s \<Longrightarrow> arc_balance s = Some s"
  by (subst arc_balance.simps) simp

lemma arc_trim_done:
  "\<not> int (length (T1 s)) + int (length (T2 s)) + int (length (B1 s)) + int (length (B2 s))
       > 2 * ARCCache.cache_size s \<Longrightarrow> arc_trim s = Some s"
  by (subst arc_trim.simps) simp

lemma arc_balance_pre:
  assumes pre: "arc_pre s"
  shows "\<exists>s'. arc_balance s = Some s' \<and> arc_mid s'
     \<and> p s' = p s \<and> ARCCache.cache_size s' = ARCCache.cache_size s
     \<and> set (T1 s') \<union> set (T2 s') \<subseteq> set (T1 s) \<union> set (T2 s)
     \<and> (int (length (T1 s)) + int (length (T2 s)) \<le> ARCCache.cache_size s \<longrightarrow> s' = s)"
proof (cases "int (length (T1 s)) + int (length (T2 s)) > ARCCache.cache_size s")
  case False
  then show ?thesis using pre arc_balance_done[OF False] by (auto simp: arc_pre_def arc_mid_def)
next
  case True
  from pre have d: "distinct (T1 s @ T2 s @ B1 s @ B2 s)"
    and sz: "int (length (T1 s)) + int (length (T2 s)) = ARCCache.cache_size s + 1"
    and tot: "int (length (T1 s)) + int (length (T2 s)) + int (length (B1 s)) + int (length (B2 s))
                \<le> 2 * ARCCache.cache_size s + 1"
    and pb: "0 \<le> p s" "p s \<le> ARCCache.cache_size s" and c: "0 < ARCCache.cache_size s"
    using True by (auto simp: arc_pre_def arc_keys_def)
  show ?thesis
  proof (cases "int (length (T1 s)) > p s")
    case t1: True
    then obtain old rest where T1: "T1 s = old # rest" using pb by (cases "T1 s") auto
    let ?s' = "s\<lparr>T1 := tl (T1 s), B1 := od_setitem (hd (T1 s)) (B1 s)\<rparr>"
    have nb: "old \<notin> set (B1 s)" using d T1 by auto
    have "arc_balance s = arc_balance ?s'"
      using True t1 T1 by (subst arc_balance.simps) simp
    also have "\<dots> = Some ?s'"
      using sz T1 by (intro arc_balance_done) simp
    finally have "arc_balance s = Some ?s'" .
    moreover have "arc_mid ?s'"
      using d sz tot pb c T1 nb by (auto simp: arc_mid_def arc_keys_def od_setitem_def)
    ultimately show ?thesis using True T1 by auto
  next
    case t2: False
    then have "T2 s \<noteq> []" using sz pb by auto
    then obtain old rest where T2: "T2 s = old # rest" by (cases "T2 s") auto
    let ?s' = "s\<lparr>T2 := tl (T2 s), B2 := od_setitem (hd (T2 s)) (B2 s)\<rparr>"
    have nb: "old \<notin> set (B2 s)" using d T2 by auto
    have "arc_balance s = arc_balance ?s'"
      using True t2 T2 by (subst arc_balance.simps) simp
    also have "\<dots> = Some ?s'"
      using sz T2 by (intro arc_balance_done) simp
    finally have "arc_balance s = Some ?s'" .
    moreover have "arc_mid ?s'"
      using d sz tot pb c T2 nb by (auto simp: arc_mid_def arc_keys_def od_setitem_def)
    ultimately show ?thesis using True T2 by auto
  qed
qed

lemma arc_trim_mid:
  assumes mid: "arc_mid s"
  shows "\<exists>s'. arc_trim s = Some s' \<and> arc_inv s'
     \<and> p s' = p s \<and> ARCCache.cache_size s' = ARCCache.cache_size s
     \<and> T1 s' = T1 s \<and> T2 s' = T2 s"
proof (cases "int (length (T1 s)) + int (length (T2 s)) + int (length (B1 s)) + int (length (B2 s))
       > 2 * ARCCache.cache_size s")
  case False
  then show ?thesis using mid arc_trim_done[OF False]
    by (auto simp: arc_mid_def arc_inv_def arc_keys_def)
next
  case True
  from mid have d: "distinct (T1 s @ T2 s @ B1 s @ B2 s)"
    and sz: "int (length (T1 s)) + int (length (T2 s)) \<le> ARCCache.cache_size s"
    and tot: "int (length (T1 s)) + int (length (T2 s)) + int (length (B1 s)) + int (length (B2 s))
                = 2 * ARCCache.cache_size s + 1"
    and pb: "0 \<le> p s" "p s \<le> ARCCache.cache_size s" and c: "0 < ARCCache.cache_size s"
    using True by (auto simp: arc_mid_def arc_keys_def)
  show ?thesis
  proof (cases "int (length (B1 s)) > p s")
    case b1: True
    then obtain old rest where B1: "B1 s = old # rest" using pb by (cases "B1 s") auto
    let ?s' = "s\<lparr>B1 := tl (B1 s)\<rparr>"
    have "arc_trim s = arc_trim ?s'"
      using True b1 B1 by (subst arc_trim.simps) simp
    also have "\<dots> = Some ?s'"
      using tot B1 by (intro arc_trim_done) simp
    finally have "arc_trim s = Some ?s'" .
    moreover have "arc_inv ?s'"
      using d sz tot pb c B1 by (auto simp: arc_inv_def arc_keys_def)
    ultimately show ?thesis by auto
  next
    case b2: False
    then have "B2 s \<noteq> []" using sz tot pb by auto
    then obtain old rest where B2: "B2 s = old # rest" by (cases "B2 s") auto
    let ?s' = "s\<lparr>B2 := tl (B2 s)\<rparr>"
    have "arc_trim s = arc_trim ?s'"
      using True b2 B2 by (subst arc_trim.simps) simp
    also have "\<dots> = Some ?s'"
      using tot B2 by (intro arc_trim_done) simp
    finally have "arc_trim s = Some ?s'" .
    moreover have "arc_inv ?s'"
      using d sz tot pb c B2 by (auto simp: arc_inv_def arc_keys_def)
    ultimately show ?thesis by auto
  qed
qed

lemma arc_loops:
  assumes "arc_pre s"
  shows "\<exists>s2 s3. arc_balance s = Some s2 \<and> arc_trim s2 = Some s3 \<and> arc_inv s3
     \<and> p s3 = p s \<and> ARCCache.cache_size s3 = ARCCache.cache_size s
     \<and> set (T1 s3) \<union> set (T2 s3) \<subseteq> set (T1 s) \<union> set (T2 s)"
proof -
  from arc_balance_pre[OF assms] obtain s2 where
    b: "arc_balance s = Some s2" "arc_mid s2" "p s2 = p s"
       "ARCCache.cache_size s2 = ARCCache.cache_size s"
       "set (T1 s2) \<union> set (T2 s2) \<subseteq> set (T1 s) \<union> set (T2 s)" by blast
  from arc_trim_mid[OF b(2)] obtain s3 where
    t: "arc_trim s2 = Some s3" "arc_inv s3" "p s3 = p s2"
       "ARCCache.cache_size s3 = ARCCache.cache_size s2" "T1 s3 = T1 s2" "T2 s3 = T2 s2" by blast
  show ?thesis using b t by auto
qed

lemma int_length_remove1:
  assumes "k \<in> set xs"
  shows "int (length (remove1 k xs)) = int (length xs) - 1"
proof -
  have "0 < length xs" using assms by (rule length_pos_if_in_set)
  moreover have "length (remove1 k xs) = length xs - 1"
    using assms by (simp only: length_remove1 if_True)
  ultimately show ?thesis by linarith
qed

lemma arc_request:
  assumes inv: "arc_inv s"
  shows "\<exists>s'. ARCCache_process_request s k = Some (s', k \<in> set (T1 s) \<union> set (T2 s))
     \<and> arc_inv s' \<and> ARCCache.cache_size s' = ARCCache.cache_size s
     \<and> set (T1 s') \<union> set (T2 s') \<subseteq> insert k (set (T1 s) \<union> set (T2 s))
     \<and> p s' =
        (if k \<in> set (T1 s) \<union> set (T2 s) then p s
         else if k \<in> set (B1 s) then
           min (ARCCache.cache_size s)
               (p s + max 1 (int (length (B2 s)) div max 1 (int (length (B1 s)))))
         else if k \<in> set (B2 s) then
           max 0 (p s - max 1 (int (length (B1 s)) div max 1 (int (length (B2 s)))))
         else p s)"
proof -
  from inv have d: "distinct (T1 s @ T2 s @ B1 s @ B2 s)"
    and sz: "int (length (T1 s)) + int (length (T2 s)) \<le> ARCCache.cache_size s"
    and tot: "int (length (T1 s)) + int (length (T2 s)) + int (length (B1 s)) + int (length (B2 s))
                \<le> 2 * ARCCache.cache_size s"
    and pb: "0 \<le> p s" "p s \<le> ARCCache.cache_size s" and c: "0 < ARCCache.cache_size s"
    by (auto simp: arc_inv_def arc_keys_def)
  consider (t1) "k \<in> set (T1 s)" | (t2) "k \<notin> set (T1 s)" "k \<in> set (T2 s)"
    | (b1) "k \<notin> set (T1 s)" "k \<notin> set (T2 s)" "k \<in> set (B1 s)"
    | (b2) "k \<notin> set (T1 s)" "k \<notin> set (T2 s)" "k \<notin> set (B1 s)" "k \<in> set (B2 s)"
    | (new) "k \<notin> set (T1 s)" "k \<notin> set (T2 s)" "k \<notin> set (B1 s)" "k \<notin> set (B2 s)"
    by blast
  then show ?thesis
  proof cases
    case t1
    let ?s' = "s\<lparr>T1 := od_pop k (T1 s), T2 := od_setitem k (T2 s)\<rparr>"
    have k2: "k \<notin> set (T2 s)" using d t1 by auto
    have "arc_inv ?s'"
      using d sz tot pb c t1 k2
      by (auto simp: arc_inv_def arc_keys_def od_pop_def od_setitem_def int_length_remove1)
    moreover have "ARCCache_process_request s k = Some (?s', True)"
      using t1 by (simp add: ARCCache_process_request_def)
    ultimately show ?thesis using t1 k2 by (auto simp: od_pop_def od_setitem_def)
  next
    case t2
    let ?s' = "s\<lparr>T2 := od_move_to_end k (T2 s)\<rparr>"
    have "arc_inv ?s'"
      using d sz tot pb c t2
      by (auto simp: arc_inv_def arc_keys_def od_move_to_end_def int_length_remove1)
    moreover have "ARCCache_process_request s k = Some (?s', True)"
      using t2 by (simp add: ARCCache_process_request_def)
    ultimately show ?thesis using t2 by (auto simp: od_move_to_end_def)
  next
    case b1
    let ?s1 = "s\<lparr>p := min (ARCCache.cache_size s)
                         (p s + max 1 (int (length (B2 s)) div max 1 (int (length (B1 s))))),
                B1 := od_pop k (B1 s), T2 := od_setitem k (T2 s)\<rparr>"
    have "0 \<le> int (length (B2 s)) div max 1 (int (length (B1 s)))"
      by (simp add: pos_imp_zdiv_nonneg_iff)
    then have "arc_pre ?s1"
      using d sz tot pb c b1
      by (auto simp: arc_pre_def arc_keys_def od_pop_def od_setitem_def int_length_remove1)
    from arc_loops[OF this] obtain s2 s3 where
      l: "arc_balance ?s1 = Some s2" "arc_trim s2 = Some s3" "arc_inv s3" "p s3 = p ?s1"
         "ARCCache.cache_size s3 = ARCCache.cache_size ?s1"
         "set (T1 s3) \<union> set (T2 s3) \<subseteq> set (T1 ?s1) \<union> set (T2 ?s1)" by blast
    have "ARCCache_process_request s k = Some (s3, False)"
      using b1 l(1,2) by (simp add: ARCCache_process_request_def)
    then show ?thesis using l(3,4,5,6) b1 by (auto simp: od_setitem_def)
  next
    case b2
    let ?s1 = "s\<lparr>p := max 0 (p s - max 1 (int (length (B1 s)) div max 1 (int (length (B2 s))))),
                B2 := od_pop k (B2 s), T2 := od_setitem k (T2 s)\<rparr>"
    have "0 \<le> int (length (B1 s)) div max 1 (int (length (B2 s)))"
      by (simp add: pos_imp_zdiv_nonneg_iff)
    then have "arc_pre ?s1"
      using d sz tot pb c b2
      by (auto simp: arc_pre_def arc_keys_def od_pop_def od_setitem_def int_length_remove1)
    from arc_loops[OF this] obtain s2 s3 where
      l: "arc_balance ?s1 = Some s2" "arc_trim s2 = Some s3" "arc_inv s3" "p s3 = p ?s1"
         "ARCCache.cache_size s3 = ARCCache.cache_size ?s1"
         "set (T1 s3) \<union> set (T2 s3) \<subseteq> set (T1 ?s1) \<union> set (T2 ?s1)" by blast
    have "ARCCache_process_request s k = Some (s3, False)"
      using b2 l(1,2) by (simp add: ARCCache_process_request_def)
    then show ?thesis using l(3,4,5,6) b2 by (auto simp: od_setitem_def)
  next
    case new
    let ?s1 = "s\<lparr>T1 := od_setitem k (T1 s)\<rparr>"
    have "arc_pre ?s1"
      using d sz tot pb c new
      by (auto simp: arc_pre_def arc_keys_def od_setitem_def)
    from arc_loops[OF this] obtain s2 s3 where
      l: "arc_balance ?s1 = Some s2" "arc_trim s2 = Some s3" "arc_inv s3" "p s3 = p ?s1"
         "ARCCache.cache_size s3 = ARCCache.cache_size ?s1"
         "set (T1 s3) \<union> set (T2 s3) \<subseteq> set (T1 ?s1) \<union> set (T2 ?s1)" by blast
    have "ARCCache_process_request s k = Some (s3, False)"
      using new l(1,2) by (simp add: ARCCache_process_request_def)
    then show ?thesis using l(3,4,5,6) new by (auto simp: od_setitem_def)
  qed
qed

lemma arc_run_inv:
  "arc_inv s \<Longrightarrow> \<exists>s' hs. arc_run s ks = Some (s', hs) \<and> arc_inv s'
      \<and> ARCCache.cache_size s' = ARCCache.cache_size s \<and> length hs = length ks"
proof (induction ks arbitrary: s)
  case Nil
  then show ?case by simp
next
  case (Cons k ks)
  from arc_request[OF Cons.prems, of k] obtain s1 where
    st: "ARCCache_process_request s k = Some (s1, k \<in> set (T1 s) \<union> set (T2 s))"
    and inv1: "arc_inv s1" and c1: "ARCCache.cache_size s1 = ARCCache.cache_size s" by blast
  from Cons.IH[OF inv1] obtain s' hs where "arc_run s1 ks = Some (s', hs)" "arc_inv s'"
    "ARCCache.cache_size s' = ARCCache.cache_size s1" "length hs = length ks" by blast
  then show ?case using st c1 by simp
qed

lemma arc_init_inv: "0 < c \<Longrightarrow> arc_inv (ARCCache_init c)"
  by (simp add: arc_inv_def arc_keys_def ARCCache_init_def)

text \<open>
  C6: with a positive capacity, every run of the ARC engine from a fresh state returns,
  and in the state it reaches each of the four lists has distinct keys, the lists are
  pairwise disjoint, \<open>|T1| + |T2| \<le> capacity\<close>, the four lengths sum to at most twice the
  capacity, and \<open>0 \<le> p \<le> capacity\<close>.
\<close>

theorem arc_invariants:
  assumes "0 < c"
  shows "\<exists>s hs. arc_run (ARCCache_init c) ks = Some (s, hs)
     \<and> distinct (T1 s) \<and> distinct (T2 s) \<and> distinct (B1 s) \<and> distinct (B2 s)
     \<and> set (T1 s) \<inter> set (T2 s) = {} \<and> set (T1 s) \<inter> set (B1 s) = {}
     \<and> set (T1 s) \<inter> set (B2 s) = {} \<and> set (T2 s) \<inter> set (B1 s) = {}
     \<and> set (T2 s) \<inter> set (B2 s) = {} \<and> set (B1 s) \<inter> set (B2 s) = {}
     \<and> int (length (T1 s)) + int (length (T2 s)) \<le> c
     \<and> int (length (T1 s)) + int (length (T2 s)) + int (length (B1 s)) + int (length (B2 s))
          \<le> 2 * c
     \<and> 0 \<le> p s \<and> p s \<le> c"
proof -
  from arc_run_inv[OF arc_init_inv[OF assms], of ks] obtain s hs where
    run: "arc_run (ARCCache_init c) ks = Some (s, hs)" and inv: "arc_inv s"
    and cs: "ARCCache.cache_size s = c" by (auto simp: ARCCache_init_def)
  from inv cs have "distinct (T1 s @ T2 s @ B1 s @ B2 s)"
    and "int (length (T1 s)) + int (length (T2 s)) \<le> c"
    and "int (length (T1 s)) + int (length (T2 s)) + int (length (B1 s)) + int (length (B2 s))
          \<le> 2 * c"
    and "0 \<le> p s" "p s \<le> c"
    by (auto simp: arc_inv_def arc_keys_def)
  then show ?thesis using run by auto
qed

theorem arc_invariants_witness:
  "(0::int) < 4
   \<and> arc_run (ARCCache_init 4) [1, 2, 3, 4, 1, 5, 2, 6, 1]
       = Some (\<lparr>ARCCache.cache_size = 4, T1 = [5, 6], T2 = [2, 1], B1 = [3, 4], B2 = [], p = 1\<rparr>,
               [False, False, False, False, True, False, False, False, True])"
  using arc_invariants[of 4 "[1, 2, 3, 4, 1, 5, 2, 6, 1]"]
  by (simp add: ARCCache_init_def ARCCache_process_request_def od_setitem_def od_pop_def
      od_move_to_end_def arc_balance.simps arc_trim.simps)

lemmas arc_eval = arc_state_after_def ARCCache_init_def ARCCache_process_request_def
  od_setitem_def od_pop_def od_move_to_end_def arc_balance.simps arc_trim.simps

text \<open>
  C3, as the claim states it, fails: the source divides with \<open>//\<close>, which rounds down.
  With capacity 5 the keys below lead to \<open>|B1| = 2\<close>, \<open>|B2| = 3\<close> and \<open>p = 1\<close>; the access
  to key 7, which is in \<open>B1\<close>, then sets \<open>p\<close> to 2, where the claim states 3.
\<close>

theorem arc_p_update_rounds_down:
  "arc_state_after 5 [1, 1, 2, 2, 3, 3, 4, 4, 5, 5, 6, 6, 7, 8, 9, 9, 10]
     = Some \<lparr>ARCCache.cache_size = 5, T1 = [10], T2 = [4, 5, 6, 9], B1 = [7, 8],
             B2 = [1, 2, 3], p = 1\<rparr>
   \<and> map_option p (arc_state_after 5 [1, 1, 2, 2, 3, 3, 4, 4, 5, 5, 6, 6, 7, 8, 9, 9, 10, 7])
       = Some 2
   \<and> claimed_p_on_B1 5 1 2 3 = 3"
proof (intro conjI)
  show "claimed_p_on_B1 5 1 2 3 = 3" by code_simp
qed (simp_all add: arc_eval)

text \<open>
  C3, amended: in the ARC engine with a positive capacity, an access to a key in \<open>B1\<close> is
  a miss that sets \<open>p\<close> to \<open>min(capacity, p + max(1, |B2| // max(1, |B1|)))\<close>, and an access
  to a key in \<open>B2\<close> is a miss that sets \<open>p\<close> to
  \<open>max(0, p - max(1, |B1| // max(1, |B2|)))\<close>, where \<open>|B1|\<close> and \<open>|B2|\<close> are the lengths
  before the access and \<open>//\<close> is the division that rounds down.
\<close>

theorem arc_p_update:
  assumes c: "0 < c" and run: "arc_run (ARCCache_init c) ks = Some (s, hs)"
  shows "(k \<in> set (B1 s) \<longrightarrow>
            (\<exists>s'. ARCCache_process_request s k = Some (s', False)
               \<and> p s' = min c (p s + max 1 (int (length (B2 s)) div max 1 (int (length (B1 s)))))))
       \<and> (k \<in> set (B2 s) \<longrightarrow>
            (\<exists>s'. ARCCache_process_request s k = Some (s', False)
               \<and> p s' = max 0 (p s - max 1 (int (length (B1 s)) div max 1 (int (length (B2 s)))))))"
proof -
  from arc_run_inv[OF arc_init_inv[OF c], of ks] run
  have inv: "arc_inv s" and cs: "ARCCache.cache_size s = c"
    by (auto simp: ARCCache_init_def)
  from inv have d: "distinct (T1 s @ T2 s @ B1 s @ B2 s)"
    by (simp add: arc_inv_def arc_keys_def)
  from arc_request[OF inv, of k] obtain s' where
    st: "ARCCache_process_request s k = Some (s', k \<in> set (T1 s) \<union> set (T2 s))"
    and pv: "p s' =
        (if k \<in> set (T1 s) \<union> set (T2 s) then p s
         else if k \<in> set (B1 s) then
           min (ARCCache.cache_size s)
               (p s + max 1 (int (length (B2 s)) div max 1 (int (length (B1 s)))))
         else if k \<in> set (B2 s) then
           max 0 (p s - max 1 (int (length (B1 s)) div max 1 (int (length (B2 s)))))
         else p s)" by blast
  show ?thesis
  proof (intro conjI impI)
    assume k: "k \<in> set (B1 s)"
    then have "k \<notin> set (T1 s) \<union> set (T2 s)" using d by auto
    then show "\<exists>s'. ARCCache_process_request s k = Some (s', False)
               \<and> p s' = min c (p s + max 1 (int (length (B2 s)) div max 1 (int (length (B1 s)))))"
      using st pv k cs by auto
  next
    assume k: "k \<in> set (B2 s)"
    then have "k \<notin> set (T1 s) \<union> set (T2 s)" "k \<notin> set (B1 s)" using d by auto
    then show "\<exists>s'. ARCCache_process_request s k = Some (s', False)
               \<and> p s' = max 0 (p s - max 1 (int (length (B1 s)) div max 1 (int (length (B2 s)))))"
      using st pv k by auto
  qed
qed

lemma arc_witness_run:
  "arc_run (ARCCache_init 5) [1, 1, 2, 2, 3, 3, 4, 4, 5, 5, 6, 6, 7, 8, 9, 9, 10]
     = Some (\<lparr>ARCCache.cache_size = 5, T1 = [10], T2 = [4, 5, 6, 9], B1 = [7, 8],
              B2 = [1, 2, 3], p = 1\<rparr>,
             [False, True, False, True, False, True, False, True, False, True, False, False,
              False, False, False, True, False])"
  by (simp add: arc_eval)

theorem arc_p_update_witness:
  "(0::int) < 5
   \<and> arc_run (ARCCache_init 5) [1, 1, 2, 2, 3, 3, 4, 4, 5, 5, 6, 6, 7, 8, 9, 9, 10]
     = Some (\<lparr>ARCCache.cache_size = 5, T1 = [10], T2 = [4, 5, 6, 9], B1 = [7, 8],
              B2 = [1, 2, 3], p = 1\<rparr>,
             [False, True, False, True, False, True, False, True, False, True, False, False,
              False, False, False, True, False])
   \<and> (\<exists>s'. ARCCache_process_request
             \<lparr>ARCCache.cache_size = 5, T1 = [10], T2 = [4, 5, 6, 9], B1 = [7, 8],
              B2 = [1, 2, 3], p = 1\<rparr> 7 = Some (s', False)
          \<and> p s' = 2)"
  using arc_p_update[OF _ arc_witness_run, of 7] arc_witness_run by simp

subsection \<open>C4: the LARC admission filter\<close>

lemma larc_new_key:
  assumes "k \<notin> set (LARCCache.cache s)" and "k \<notin> set (recent_cache s)"
  shows "LARCCache_process_request s k
     = Inr (s\<lparr>recent_cache :=
               (if of_int (int (length (recent_cache s)) + 1) > recent_cache_limit s
                then tl (recent_cache s @ [k]) else recent_cache s @ [k])\<rparr>, False)"
  using assms
  by (cases "recent_cache s")
     (auto simp: LARCCache_process_request_def od_setitem_def od_popitem_first_def Let_def)

lemma larc_step:
  assumes inv: "larc_inv s"
  shows "\<exists>s'. LARCCache_process_request s k = Inr (s', k \<in> set (LARCCache.cache s))
     \<and> larc_inv s' \<and> LARCCache.cache_size s' = LARCCache.cache_size s"
proof -
  let ?c = "rat_of_int (LARCCache.cache_size s)"
  let ?l = "recent_cache_limit s"
  from inv have c: "0 < LARCCache.cache_size s" and cpos: "0 < ?c"
    and dc: "distinct (LARCCache.cache s)" and dr: "distinct (recent_cache s)"
    and lc: "int (length (LARCCache.cache s)) \<le> LARCCache.cache_size s"
    and lo: "(1 / 10) * ?c \<le> ?l" and hi: "?l \<le> (9 / 10) * ?c"
    and lr: "of_int (int (length (recent_cache s))) \<le> (9 / 10) * ?c"
    by (auto simp: larc_inv_def)
  have lpos: "0 < ?l" using lo cpos by linarith
  have gap: "0 < ?c - ?l" using hi cpos by linarith
  consider (hit) "k \<in> set (LARCCache.cache s)"
    | (recent) "k \<notin> set (LARCCache.cache s)" "k \<in> set (recent_cache s)"
    | (new) "k \<notin> set (LARCCache.cache s)" "k \<notin> set (recent_cache s)" by blast
  then show ?thesis
  proof cases
    case hit
    let ?l' = "max ((1 / 10) * ?c) (?l - ?c / (?c - ?l))"
    let ?s' = "s\<lparr>LARCCache.cache := od_move_to_end k (LARCCache.cache s),
                 recent_cache_limit := ?l'\<rparr>"
    have q: "0 \<le> ?c / (?c - ?l)" using cpos gap by simp
    have "(1 / 10) * ?c \<le> (9 / 10) * ?c" using cpos by simp
    moreover have "?l - ?c / (?c - ?l) \<le> (9 / 10) * ?c" using hi q by linarith
    ultimately have "?l' \<le> (9 / 10) * ?c" by (rule max.boundedI)
    moreover have "(1 / 10) * ?c \<le> ?l'" by (rule max.cobounded1)
    ultimately have "larc_inv ?s'"
      using c dc dr lc lr hit
      by (simp add: larc_inv_def od_move_to_end_def int_length_remove1)
    moreover have "LARCCache_process_request s k = Inr (?s', True)"
      using hit gap by (simp add: LARCCache_process_request_def)
    ultimately show ?thesis using hit by auto
  next
    case recent
    let ?l' = "min ((9 / 10) * ?c) (?l + ?c / ?l)"
    let ?s1 = "s\<lparr>recent_cache_limit := ?l', recent_cache := od_pop k (recent_cache s),
                 LARCCache.cache := od_setitem k (LARCCache.cache s)\<rparr>"
    have q: "0 \<le> ?c / ?l" using cpos lpos by simp
    have "(1 / 10) * ?c \<le> (9 / 10) * ?c" using cpos by simp
    moreover have "(1 / 10) * ?c \<le> ?l + ?c / ?l" using lo q by linarith
    ultimately have lo': "(1 / 10) * ?c \<le> ?l'" by (rule min.boundedI)
    have hi': "?l' \<le> (9 / 10) * ?c" by (rule min.cobounded1)
    have lr': "of_int (int (length (od_pop k (recent_cache s)))) \<le> (9 / 10) * ?c"
      using lr recent(2) by (simp add: od_pop_def int_length_remove1)
    have dr': "distinct (od_pop k (recent_cache s))" using dr by (simp add: od_pop_def)
    have app: "od_setitem k (LARCCache.cache s) = LARCCache.cache s @ [k]"
      using recent(1) by (simp add: od_setitem_def)
    show ?thesis
    proof (cases "int (length (LARCCache.cache s)) + 1 > LARCCache.cache_size s")
      case True
      then obtain old rest where cs: "LARCCache.cache s = old # rest"
        using c by (cases "LARCCache.cache s") auto
      let ?s' = "?s1\<lparr>LARCCache.cache := rest @ [k]\<rparr>"
      have "LARCCache_process_request s k = Inr (?s', False)"
        using recent lpos True cs app
        by (simp add: LARCCache_process_request_def od_popitem_first_def Let_def)
      moreover have "larc_inv ?s'"
        using c dc lc recent(1) lo' hi' lr' dr' cs
        by (simp add: larc_inv_def)
      ultimately show ?thesis using recent by auto
    next
      case False
      have "LARCCache_process_request s k = Inr (?s1, False)"
        using recent lpos False app
        by (simp add: LARCCache_process_request_def Let_def)
      moreover have "larc_inv ?s1"
        using c dc lc recent(1) lo' hi' lr' dr' False app
        by (simp add: larc_inv_def)
      ultimately show ?thesis using recent by auto
    qed
  next
    case new
    let ?r' = "if of_int (int (length (recent_cache s)) + 1) > ?l
               then tl (recent_cache s @ [k]) else recent_cache s @ [k]"
    let ?s' = "s\<lparr>recent_cache := ?r'\<rparr>"
    have st: "LARCCache_process_request s k = Inr (?s', False)"
      by (rule larc_new_key[OF new])
    have "distinct ?r'" using dr new(2) by (auto simp: distinct_tl)
    moreover have "of_int (int (length ?r')) \<le> (9 / 10) * ?c"
      using lr hi by (auto simp: not_less)
    ultimately have "larc_inv ?s'"
      using c dc lc lo hi by (simp add: larc_inv_def)
    then show ?thesis using st new by auto
  qed
qed

lemma larc_run_inv:
  "larc_inv s \<Longrightarrow> \<exists>s' hs. larc_run s ks = Inr (s', hs) \<and> larc_inv s'
      \<and> LARCCache.cache_size s' = LARCCache.cache_size s \<and> length hs = length ks"
proof (induction ks arbitrary: s)
  case Nil
  then show ?case by simp
next
  case (Cons k ks)
  from larc_step[OF Cons.prems, of k] obtain s1 where
    st: "LARCCache_process_request s k = Inr (s1, k \<in> set (LARCCache.cache s))"
    and inv1: "larc_inv s1" and c1: "LARCCache.cache_size s1 = LARCCache.cache_size s" by blast
  from Cons.IH[OF inv1] obtain s' hs where "larc_run s1 ks = Inr (s', hs)" "larc_inv s'"
    "LARCCache.cache_size s' = LARCCache.cache_size s1" "length hs = length ks" by blast
  then show ?case using st c1 by simp
qed

lemma larc_init_inv: "0 < c \<Longrightarrow> larc_inv (LARCCache_init c)"
  by (simp add: larc_inv_def LARCCache_init_def)

lemmas larc_eval = larc_state_after_def LARCCache_init_def LARCCache_process_request_def
  od_setitem_def od_pop_def od_move_to_end_def od_popitem_first_def

text \<open>
  C4, as the claim states it, fails. With capacity 10 the keys 1,1,2,3,4,1 leave three
  keys in \<open>recent_cache\<close> while the hit on key 1 has lowered \<open>recent_cache_limit\<close> to 1:
  the bound does not hold after that call. The next key, 5, is in neither structure; it
  is inserted and one entry is dropped, not entries while the limit is exceeded, so
  three keys remain.
\<close>

theorem larc_filter_exceeds_limit:
  "larc_state_after 10 [1, 1, 2, 3, 4, 1]
     = Inr \<lparr>LARCCache.cache_size = 10, LARCCache.cache = [1], recent_cache = [2, 3, 4],
            recent_cache_limit = 1\<rparr>
   \<and> larc_state_after 10 [1, 1, 2, 3, 4, 1, 5]
     = Inr \<lparr>LARCCache.cache_size = 10, LARCCache.cache = [1], recent_cache = [3, 4, 5],
            recent_cache_limit = 1\<rparr>
   \<and> \<not> int (length [3, 4, 5 :: int]) \<le> \<lfloor>1 :: rat\<rfloor>"
  by (simp add: larc_eval)

text \<open>
  C4, amended: in the LARC engine with a positive capacity, after every
  \<open>process_request\<close> call \<open>|recent_cache| \<le> floor(0.9 * capacity)\<close>, the upper end of the
  range that \<open>recent_cache_limit\<close> is kept in. On an access to a key in neither structure
  (from any state) the key is inserted at the most-recent end of \<open>recent_cache\<close> and then
  the oldest entry is dropped, once, exactly when \<open>|recent_cache| > recent_cache_limit\<close>;
  the call is a miss and changes nothing else, and if \<open>|recent_cache| \<le>
  floor(recent_cache_limit)\<close> held before such an access it holds after it.
\<close>

theorem larc_recent_filter:
  assumes c: "0 < c"
  shows "(\<exists>s hs. larc_run (LARCCache_init c) ks = Inr (s, hs)
            \<and> int (length (recent_cache s)) \<le> \<lfloor>(9 / 10) * rat_of_int c\<rfloor>)
     \<and> (k \<notin> set (LARCCache.cache s0) \<and> k \<notin> set (recent_cache s0) \<longrightarrow>
           (\<exists>s'. LARCCache_process_request s0 k = Inr (s', False)
              \<and> s' = s0\<lparr>recent_cache :=
                          (if rat_of_int (int (length (recent_cache s0)) + 1) > recent_cache_limit s0
                           then tl (recent_cache s0 @ [k]) else recent_cache s0 @ [k])\<rparr>
              \<and> (int (length (recent_cache s0)) \<le> \<lfloor>recent_cache_limit s0\<rfloor>
                    \<longrightarrow> int (length (recent_cache s')) \<le> \<lfloor>recent_cache_limit s'\<rfloor>)))"
proof (intro conjI impI)
  from larc_run_inv[OF larc_init_inv[OF c], of ks] obtain s hs where
    run: "larc_run (LARCCache_init c) ks = Inr (s, hs)" and inv: "larc_inv s"
    and cs: "LARCCache.cache_size s = c" by (auto simp: LARCCache_init_def)
  from inv cs have "rat_of_int (int (length (recent_cache s))) \<le> (9 / 10) * rat_of_int c"
    by (simp add: larc_inv_def)
  then have "int (length (recent_cache s)) \<le> \<lfloor>(9 / 10) * rat_of_int c\<rfloor>"
    by (simp only: le_floor_iff)
  then show "\<exists>s hs. larc_run (LARCCache_init c) ks = Inr (s, hs)
            \<and> int (length (recent_cache s)) \<le> \<lfloor>(9 / 10) * rat_of_int c\<rfloor>"
    using run by blast
next
  assume new: "k \<notin> set (LARCCache.cache s0) \<and> k \<notin> set (recent_cache s0)"
  let ?r' = "if rat_of_int (int (length (recent_cache s0)) + 1) > recent_cache_limit s0
             then tl (recent_cache s0 @ [k]) else recent_cache s0 @ [k]"
  have st: "LARCCache_process_request s0 k = Inr (s0\<lparr>recent_cache := ?r'\<rparr>, False)"
    using new by (intro larc_new_key) simp_all
  have keep: "int (length ?r') \<le> \<lfloor>recent_cache_limit s0\<rfloor>"
    if "int (length (recent_cache s0)) \<le> \<lfloor>recent_cache_limit s0\<rfloor>"
  proof (cases "rat_of_int (int (length (recent_cache s0)) + 1) > recent_cache_limit s0")
    case True
    then show ?thesis using that by simp
  next
    case False
    then have "rat_of_int (int (length (recent_cache s0)) + 1) \<le> recent_cache_limit s0"
      by simp
    then have "int (length (recent_cache s0)) + 1 \<le> \<lfloor>recent_cache_limit s0\<rfloor>"
      by (simp only: le_floor_iff)
    then show ?thesis using False by simp
  qed
  show "\<exists>s'. LARCCache_process_request s0 k = Inr (s', False)
              \<and> s' = s0\<lparr>recent_cache :=
                          (if rat_of_int (int (length (recent_cache s0)) + 1) > recent_cache_limit s0
                           then tl (recent_cache s0 @ [k]) else recent_cache s0 @ [k])\<rparr>
              \<and> (int (length (recent_cache s0)) \<le> \<lfloor>recent_cache_limit s0\<rfloor>
                    \<longrightarrow> int (length (recent_cache s')) \<le> \<lfloor>recent_cache_limit s'\<rfloor>)"
    using st keep by simp
qed

theorem larc_recent_filter_witness:
  "(0::int) < 10
   \<and> (\<exists>s hs. larc_run (LARCCache_init 10) [1, 1, 2, 3, 4, 1, 5] = Inr (s, hs)
         \<and> int (length (recent_cache s)) \<le> \<lfloor>(9 / 10) * rat_of_int 10\<rfloor>)
   \<and> (5::int) \<notin> set [1] \<and> (5::int) \<notin> set [2, 3, 4]
   \<and> LARCCache_process_request
        \<lparr>LARCCache.cache_size = 10, LARCCache.cache = [1], recent_cache = [2, 3, 4],
         recent_cache_limit = 1\<rparr> 5
       = Inr (\<lparr>LARCCache.cache_size = 10, LARCCache.cache = [1], recent_cache = [3, 4, 5],
              recent_cache_limit = 1\<rparr>, False)"
  using larc_recent_filter[of 10 "[1, 1, 2, 3, 4, 1, 5]" 5
      "\<lparr>LARCCache.cache_size = 10, LARCCache.cache = [1], recent_cache = [2, 3, 4],
        recent_cache_limit = 1\<rparr>"]
  by simp

subsection \<open>C2: the resident set never exceeds the capacity\<close>





















subsection \<open>C10: the operation column does not influence hits and misses\<close>

lemma lru_run_length: "lru_run s ks = Inr (s', hs) \<Longrightarrow> length hs = length ks"
  by (induction ks arbitrary: s hs) (auto split: sum.splits)

lemma opt_run_length: "opt_run s rs = Inr (s', hs) \<Longrightarrow> length hs = length rs"
  by (induction rs arbitrary: s hs) (auto split: sum.splits)

lemma arc_run_length: "arc_run s ks = Some (s', hs) \<Longrightarrow> length hs = length ks"
  by (induction ks arbitrary: s hs) (auto split: option.splits)

lemma larc_run_length: "larc_run s ks = Inr (s', hs) \<Longrightarrow> length hs = length ks"
  by (induction ks arbitrary: s hs) (auto split: sum.splits)

lemma nhit_run_length: "nhit_run s ks = Inr (s', hs) \<Longrightarrow> length hs = length ks"
  by (induction ks arbitrary: s hs) (auto split: sum.splits)

lemma nhit_lru_run_length: "nhit_lru_run st ks = Inr (st', hs) \<Longrightarrow> length hs = length ks"
  by (induction ks arbitrary: st hs) (auto split: sum.splits)

lemma hits_from_misses: "int (length hs) - int (misses_in hs) = int (hits_in hs)"
  using hits_misses[of hs] by linarith

lemma arc_loop_summary:
  "\<forall>r \<in> set rows. snd r = ''Read'' \<or> snd r = ''Write'' \<Longrightarrow>
   (case arc_run s (map fst rows) of
     None \<Rightarrow> arc_loop s (rr, wr, rh, wh, rm, wm) rows = None
   | Some (s', hs) \<Rightarrow>
       \<exists>rr' wr' rh' wh' rm' wm'.
          arc_loop s (rr, wr, rh, wh, rm, wm) rows = Some (s', (rr', wr', rh', wh', rm', wm'))
          \<and> rr' + wr' = rr + wr + int (length rows)
          \<and> rh' + wh' = rh + wh + int (hits_in hs)
          \<and> rm' + wm' = rm + wm + int (misses_in hs))"
proof (induction rows arbitrary: s rr wr rh wh rm wm)
  case Nil
  then show ?case by simp
next
  case (Cons r rows)
  obtain k operation where r: "r = (k, operation)" by (cases r)
  from Cons.prems r have op: "operation = ''Read'' \<or> operation = ''Write''"
    and rest: "\<forall>r \<in> set rows. snd r = ''Read'' \<or> snd r = ''Write''" by auto
  show ?case
  proof (cases "ARCCache_process_request s k")
    case None
    then show ?thesis using op by (auto simp: r)
  next
    case (Some a)
    obtain s1 hit where a: "a = (s1, hit)" by (cases a)
    show ?thesis
    proof (cases "operation = ''Read''")
      case True
      from Cons.IH[OF rest, of s1 "rr + 1" wr "if hit then rh + 1 else rh" wh
          "if hit then rm else rm + 1" wm]
      show ?thesis using Some a r True
        by (cases "arc_run s1 (map fst rows)") (auto split: if_splits)
    next
      case False
      then have w: "operation = ''Write''" using op by simp
      from Cons.IH[OF rest, of s1 rr "wr + 1" rh "if hit then wh + 1 else wh" rm
          "if hit then wm else wm + 1"]
      show ?thesis using Some a r w
        by (cases "arc_run s1 (map fst rows)") (auto split: if_splits)
    qed
  qed
qed

lemma larc_loop_summary:
  "\<forall>r \<in> set rows. snd r = ''Read'' \<or> snd r = ''Write'' \<Longrightarrow>
   (case larc_run s (map fst rows) of
     Inl e \<Rightarrow> larc_loop s (rr, wr, rh, wh, rm, wm) rows = Inl e
   | Inr (s', hs) \<Rightarrow>
       \<exists>rr' wr' rh' wh' rm' wm'.
          larc_loop s (rr, wr, rh, wh, rm, wm) rows = Inr (s', (rr', wr', rh', wh', rm', wm'))
          \<and> rr' + wr' = rr + wr + int (length rows)
          \<and> rh' + wh' = rh + wh + int (hits_in hs)
          \<and> rm' + wm' = rm + wm + int (misses_in hs))"
proof (induction rows arbitrary: s rr wr rh wh rm wm)
  case Nil
  then show ?case by simp
next
  case (Cons r rows)
  obtain k operation where r: "r = (k, operation)" by (cases r)
  from Cons.prems r have op: "operation = ''Read'' \<or> operation = ''Write''"
    and rest: "\<forall>r \<in> set rows. snd r = ''Read'' \<or> snd r = ''Write''" by auto
  show ?case
  proof (cases "LARCCache_process_request s k")
    case (Inl e)
    then show ?thesis using op by (auto simp: r)
  next
    case (Inr a)
    obtain s1 hit where a: "a = (s1, hit)" by (cases a)
    show ?thesis
    proof (cases "operation = ''Read''")
      case True
      from Cons.IH[OF rest, of s1 "rr + 1" wr "if hit then rh + 1 else rh" wh
          "if hit then rm else rm + 1" wm]
      show ?thesis using Inr a r True
        by (cases "larc_run s1 (map fst rows)") (auto split: if_splits)
    next
      case False
      then have w: "operation = ''Write''" using op by simp
      from Cons.IH[OF rest, of s1 rr "wr + 1" rh "if hit then wh + 1 else wh" rm
          "if hit then wm else wm + 1"]
      show ?thesis using Inr a r w
        by (cases "larc_run s1 (map fst rows)") (auto split: if_splits)
    qed
  qed
qed

lemma nhit_loop_summary:
  "case nhit_run s (map fst rows) of
     Inl e \<Rightarrow> nhit_loop s (tr, rh, rm, wh, wm, cm) ta rows = Inl e
   | Inr (s', hs) \<Rightarrow>
       \<exists>rh' rm' wh' wm'.
          nhit_loop s (tr, rh, rm, wh, wm, cm) ta rows
            = Inr (s', (tr + int (length rows), rh', rm', wh', wm',
                        fst (cold_tally (cm, ta) (map fst rows) hs)),
                   snd (cold_tally (cm, ta) (map fst rows) hs))
          \<and> rh' + wh' = rh + wh + int (hits_in hs)
          \<and> rm' + wm' = rm + wm + int (misses_in hs)"
proof (induction rows arbitrary: s tr rh rm wh wm cm ta)
  case Nil
  then show ?case by simp
next
  case (Cons r rows)
  obtain k operation where r: "r = (k, operation)" by (cases r)
  show ?case
  proof (cases "nhit_request s k")
    case (Inl e)
    then show ?thesis by (simp add: r)
  next
    case (Inr a)
    obtain s1 hit where a: "a = (s1, hit)" by (cases a)
    show ?thesis
    proof (cases hit)
      case True
      from Cons.IH[of s1 "tr + 1" "if operation = ''Read'' then rh + 1 else rh" rm
          "if operation = ''Read'' then wh else wh + 1" wm cm ta]
      show ?thesis using Inr a r True
        by (cases "nhit_run s1 (map fst rows)") (auto split: if_splits)
    next
      case False
      from Cons.IH[of s1 "tr + 1" rh "if operation = ''Read'' then rm + 1 else rm" wh
          "if operation = ''Read'' then wm else wm + 1" "if k \<notin> ta then cm + 1 else cm"
          "insert k ta"]
      show ?thesis using Inr a r False
        by (cases "nhit_run s1 (map fst rows)") (auto split: if_splits)
    qed
  qed
qed

lemma string_cells_Nil: "string_cells [] = []"
  by (simp add: string_cells_def)

lemma string_cells_Cons: "string_cells ((k, operation) # rows) = (k, Some operation) # string_cells rows"
  by (simp add: string_cells_def)

lemma string_cells_take: "string_cells (take i rows) = take i (string_cells rows)"
  by (simp add: string_cells_def take_map)

lemma py_lower_strip_Read: "py_lower (py_strip ''Read'') = ''read''"
  by code_simp

lemma py_lower_strip_Write: "py_lower (py_strip ''Write'') = ''write''"
  by code_simp

lemma nhit_lru_loop_summary:
  "\<forall>r \<in> set rows. py_lower (py_strip (snd r)) = ''read'' \<or> py_lower (py_strip (snd r)) = ''write'' \<Longrightarrow>
   (case nhit_lru_run st (map fst rows) of
     Inl e \<Rightarrow> nhit_lru_loop st (rr, wr, rh, wh) (string_cells rows) = Inl e
   | Inr (st', hs) \<Rightarrow>
       \<exists>rr' wr' rh' wh'.
          nhit_lru_loop st (rr, wr, rh, wh) (string_cells rows) = Inr (st', (rr', wr', rh', wh'))
          \<and> rr' + wr' = rr + wr + int (length rows)
          \<and> rh' + wh' = rh + wh + int (hits_in hs))"
proof (induction rows arbitrary: st rr wr rh wh)
  case Nil
  then show ?case by (simp add: string_cells_Nil)
next
  case (Cons r rows)
  obtain k operation where r: "r = (k, operation)" by (cases r)
  from Cons.prems r
  have op: "py_lower (py_strip operation) = ''read'' \<or> py_lower (py_strip operation) = ''write''"
    and rest: "\<forall>r \<in> set rows. py_lower (py_strip (snd r)) = ''read''
                  \<or> py_lower (py_strip (snd r)) = ''write''" by auto
  show ?case
  proof (cases "nhit_lru_request st k")
    case (Inl e)
    then show ?thesis using op by (auto simp: r string_cells_Cons)
  next
    case (Inr a)
    obtain st1 hit where a: "a = (st1, hit)" by (cases a)
    show ?thesis
    proof (cases "py_lower (py_strip operation) = ''read''")
      case True
      from Cons.IH[OF rest, of st1 "rr + 1" wr "if hit then rh + 1 else rh" wh]
      show ?thesis using Inr a r True
        by (cases "nhit_lru_run st1 (map fst rows)") (auto simp: string_cells_Cons split: if_splits)
    next
      case False
      then have w: "py_lower (py_strip operation) = ''write''" using op by simp
      from Cons.IH[OF rest, of st1 rr "wr + 1" rh "if hit then wh + 1 else wh"]
      show ?thesis using Inr a r w
        by (cases "nhit_lru_run st1 (map fst rows)") (auto simp: string_cells_Cons split: if_splits)
    qed
  qed
qed

lemma lru_observe_keys:
  "lru_observe s rows =
     (case lru_run s (map fst rows) of
        Inl e \<Rightarrow> Inl e
      | Inr (s', hs) \<Rightarrow> Inr (s', int (length hs), int (hits_in hs), int (misses_in hs)))"
proof (cases "lru_run s (map fst rows)")
  case (Inl e)
  then show ?thesis
    using lru_loop_summary[where s=s and rows=rows and rr=0 and rm=0 and wr=0 and wm=0]
    by (simp add: lru_observe_def simulate_lru_policy_def)
next
  case (Inr a)
  obtain s' hs where a: "a = (s', hs)" by (cases a)
  from lru_run_length[OF Inr[unfolded a]] have len: "length hs = length rows" by simp
  from lru_loop_summary[where s=s and rows=rows and rr=0 and rm=0 and wr=0 and wm=0] Inr a
  obtain rr rm wr wm where
    "lru_loop s (0, 0, 0, 0) rows = Inr (s', (rr, rm, wr, wm))"
    "rr + wr = int (length rows)" "rm + wm = int (misses_in hs)" by auto
  then show ?thesis using Inr a len hits_from_misses[of hs]
    by (simp add: lru_observe_def simulate_lru_policy_def collect_statistics_def totals_def Let_def)
qed

lemma arc_observe_keys:
  assumes "\<forall>r \<in> set rows. snd r = ''Read'' \<or> snd r = ''Write''"
  shows "arc_observe s rows =
     (case arc_run s (map fst rows) of
        None \<Rightarrow> None
      | Some (s', hs) \<Rightarrow> Some (s', int (length hs), int (hits_in hs), int (misses_in hs)))"
proof (cases "arc_run s (map fst rows)")
  case None
  then show ?thesis
    using arc_loop_summary[OF assms, where s=s and rr=0 and wr=0 and rh=0 and wh=0 and rm=0 and wm=0]
    by (simp add: arc_observe_def ARCCache_simulate_def)
next
  case (Some a)
  obtain s' hs where a: "a = (s', hs)" by (cases a)
  from arc_run_length[OF Some[unfolded a]] have len: "length hs = length rows" by simp
  from arc_loop_summary[OF assms, where s=s and rr=0 and wr=0 and rh=0 and wh=0 and rm=0 and wm=0]
    Some a
  obtain rr wr rh wh rm wm where
    "arc_loop s (0, 0, 0, 0, 0, 0) rows = Some (s', (rr, wr, rh, wh, rm, wm))"
    "rr + wr = int (length rows)" "rh + wh = int (hits_in hs)" "rm + wm = int (misses_in hs)"
    by auto
  then show ?thesis using Some a len
    by (simp add: arc_observe_def ARCCache_simulate_def arc_stats_def totals_def)
qed

lemma larc_observe_keys:
  assumes "\<forall>r \<in> set rows. snd r = ''Read'' \<or> snd r = ''Write''"
  shows "larc_observe s rows =
     (case larc_run s (map fst rows) of
        Inl e \<Rightarrow> Inl e
      | Inr (s', hs) \<Rightarrow> Inr (s', int (length hs), int (hits_in hs), int (misses_in hs)))"
proof (cases "larc_run s (map fst rows)")
  case (Inl e)
  then show ?thesis
    using larc_loop_summary[OF assms, where s=s and rr=0 and wr=0 and rh=0 and wh=0 and rm=0 and wm=0]
    by (simp add: larc_observe_def LARCCache_simulate_def)
next
  case (Inr a)
  obtain s' hs where a: "a = (s', hs)" by (cases a)
  from larc_run_length[OF Inr[unfolded a]] have len: "length hs = length rows" by simp
  from larc_loop_summary[OF assms, where s=s and rr=0 and wr=0 and rh=0 and wh=0 and rm=0 and wm=0]
    Inr a
  obtain rr wr rh wh rm wm where
    "larc_loop s (0, 0, 0, 0, 0, 0) rows = Inr (s', (rr, wr, rh, wh, rm, wm))"
    "rr + wr = int (length rows)" "rh + wh = int (hits_in hs)" "rm + wm = int (misses_in hs)"
    by auto
  then show ?thesis using Inr a len
    by (simp add: larc_observe_def LARCCache_simulate_def arc_stats_def totals_def)
qed

lemma nhit_observe_keys:
  "nhit_observe rows c trig ins =
     (case nhit_run (NHitCache_init c trig ins) (map fst rows) of
        Inl e \<Rightarrow> Inl e
      | Inr (s', hs) \<Rightarrow>
          Inr (s', (int (length hs), int (hits_in hs), int (misses_in hs)),
               fst (cold_tally (0, {}) (map fst rows) hs)))"
proof (cases "nhit_run (NHitCache_init c trig ins) (map fst rows)")
  case (Inl e)
  then show ?thesis
    using nhit_loop_summary[where s="NHitCache_init c trig ins" and rows=rows and tr=0 and rh=0
        and rm=0 and wh=0 and wm=0 and cm=0 and ta="{}"]
    by (simp add: nhit_observe_def simulate_nhit_def)
next
  case (Inr a)
  obtain s' hs where a: "a = (s', hs)" by (cases a)
  from nhit_run_length[OF Inr[unfolded a]] have len: "length hs = length rows" by simp
  from nhit_loop_summary[where s="NHitCache_init c trig ins" and rows=rows and tr=0 and rh=0
        and rm=0 and wh=0 and wm=0 and cm=0 and ta="{}"] Inr a
  obtain rh rm wh wm where
    "nhit_loop (NHitCache_init c trig ins) (0, 0, 0, 0, 0, 0) {} rows
       = Inr (s', (int (length rows), rh, rm, wh, wm, fst (cold_tally (0, {}) (map fst rows) hs)),
              snd (cold_tally (0, {}) (map fst rows) hs))"
    "rh + wh = int (hits_in hs)" "rm + wm = int (misses_in hs)" by auto
  moreover have "int (hits_in hs) + int (misses_in hs) = int (length hs)"
    using hits_misses[of hs] by linarith
  ultimately show ?thesis using Inr a len
    by (simp add: nhit_observe_def simulate_nhit_def nhit_collect_statistics_def totals_def Let_def)
qed

lemma nhit_lru_observe_keys:
  assumes "\<forall>r \<in> set rows. snd r = ''Read'' \<or> snd r = ''Write''"
  shows "nhit_lru_observe rows c trig n ratio =
     (case nhit_lru_run (PromoLRU_init c, NHitPolicy_init c trig n ratio) (map fst rows) of
        Inl e \<Rightarrow> Inl e
      | Inr (st', hs) \<Rightarrow> Inr (st', int (length hs), int (hits_in hs), int (misses_in hs)))"
proof -
  have served: "\<forall>r \<in> set rows. py_lower (py_strip (snd r)) = ''read''
                  \<or> py_lower (py_strip (snd r)) = ''write''"
    using assms py_lower_strip_Read py_lower_strip_Write by auto
  note sm = nhit_lru_loop_summary[OF served,
      where st="(PromoLRU_init c, NHitPolicy_init c trig n ratio)"
        and rr=0 and wr=0 and rh=0 and wh=0]
  show ?thesis
  proof (cases "nhit_lru_run (PromoLRU_init c, NHitPolicy_init c trig n ratio) (map fst rows)")
    case (Inl e)
    then show ?thesis using sm by (simp add: nhit_lru_observe_def simulate_nhit_lru_def)
  next
    case (Inr a)
    obtain st' hs where a: "a = (st', hs)" by (cases a)
    from nhit_lru_run_length[OF Inr[unfolded a]] have len: "length hs = length rows" by simp
    from sm Inr a
    obtain rr wr rh wh where
      "nhit_lru_loop (PromoLRU_init c, NHitPolicy_init c trig n ratio) (0, 0, 0, 0)
         (string_cells rows) = Inr (st', (rr, wr, rh, wh))"
      "rr + wr = int (length rows)" "rh + wh = int (hits_in hs)" by auto
    then show ?thesis using Inr a len hits_from_misses[of hs] hits_misses[of hs]
      by (simp add: nhit_lru_observe_def simulate_nhit_lru_def nhit_lru_stats_def Let_def)
  qed
qed

lemma belady_loop_extra_next_use:
  "length rows \<le> length nus
     \<Longrightarrow> belady_loop s cs rows nus = belady_loop s cs rows (take (length rows) nus)"
proof (induction rows arbitrary: s cs nus)
  case Nil
  then show ?case by simp
next
  case (Cons r rows)
  obtain k req_type where r: "r = (k, req_type)" by (cases r)
  obtain th tm rh rm wh wm where cs: "cs = (th, tm, rh, rm, wh, wm)" by (cases cs)
  from Cons.prems obtain nu nus' where nus: "nus = nu # nus'" and len: "length rows \<le> length nus'"
    by (cases nus) auto
  show ?case
    using Cons.IH[OF len] by (simp add: r cs nus split: sum.splits)
qed

lemma precompute_keys:
  assumes "map fst rows = map fst rows'"
  shows "precompute_next_use rows = precompute_next_use rows'"
proof (rule nth_equalityI)
  have len: "length rows = length rows'" using assms by (rule map_eq_imp_length_eq)
  then show "length (precompute_next_use rows) = length (precompute_next_use rows')"
    by (simp add: precompute_next_use_length)
  fix i assume "i < length (precompute_next_use rows)"
  then have i: "i < length rows" "i < length rows'"
    using len by (simp_all add: precompute_next_use_length)
  have "fst (rows ! i) = map fst rows ! i" "fst (rows' ! i) = map fst rows' ! i"
    using i by simp_all
  then have "fst (rows ! i) = fst (rows' ! i)" using assms by simp
  then show "precompute_next_use rows ! i = precompute_next_use rows' ! i"
    using i assms by (simp add: precompute_next_use_nth)
qed

lemma opt_observe_keys:
  "opt_observe c rows =
     (case opt_run (OptimalCache_init c) (annotate 0 (map fst rows)) of
        Inl e \<Rightarrow> Inl e
      | Inr (s', hs) \<Rightarrow> Inr (s', int (length hs), int (hits_in hs), int (misses_in hs)))"
proof -
  have plen: "length (precompute_next_use rows) = length rows"
    by (rule precompute_next_use_length)
  note sm = belady_loop_summary[OF plen, where s="OptimalCache_init c" and th=0 and tm=0
      and rh=0 and rm=0 and wh=0 and wm=0, unfolded zip_precompute]
  show ?thesis
  proof (cases "opt_run (OptimalCache_init c) (annotate 0 (map fst rows))")
    case (Inl e)
    then show ?thesis using sm by (simp add: opt_observe_def CacheSimulator_simulate_def)
  next
    case (Inr a)
    obtain s' hs where a: "a = (s', hs)" by (cases a)
    from opt_run_length[OF Inr[unfolded a]] have len: "length hs = length rows"
      using annotate_nth[of 0 "map fst rows"] by simp
    from sm Inr a obtain rh rm wh wm where
      "belady_loop (OptimalCache_init c) (0, 0, 0, 0, 0, 0) rows (precompute_next_use rows)
         = Inr (s', (int (hits_in hs), int (misses_in hs), rh, rm, wh, wm))" by auto
    then show ?thesis using Inr a len
      by (simp add: opt_observe_def CacheSimulator_simulate_def totals_def)
  qed
qed

lemma opt_observe_prefix_keys:
  "opt_observe_prefix c i rows =
     (case opt_run (OptimalCache_init c) (take i (annotate 0 (map fst rows))) of
        Inl e \<Rightarrow> Inl e
      | Inr (s', hs) \<Rightarrow> Inr (s', int (hits_in hs), int (misses_in hs)))"
proof -
  let ?nus = "take (length (take i rows)) (precompute_next_use rows)"
  have le: "length (take i rows) \<le> length (precompute_next_use rows)"
    by (simp add: precompute_next_use_length)
  have eq: "belady_loop (OptimalCache_init c) (0, 0, 0, 0, 0, 0) (take i rows)
               (precompute_next_use rows)
            = belady_loop (OptimalCache_init c) (0, 0, 0, 0, 0, 0) (take i rows) ?nus"
    by (rule belady_loop_extra_next_use[OF le])
  have len: "length ?nus = length (take i rows)"
    by (simp add: precompute_next_use_length)
  have "zip (map fst (take i rows)) ?nus
          = take i (zip (map fst rows) (precompute_next_use rows))"
    by (simp add: take_zip take_map min_def precompute_next_use_length)
  then have zp: "zip (map fst (take i rows)) ?nus = take i (annotate 0 (map fst rows))"
    by (simp only: zip_precompute)
  note sm = belady_loop_summary[OF len, where s="OptimalCache_init c" and th=0 and tm=0
      and rh=0 and rm=0 and wh=0 and wm=0, unfolded zp]
  show ?thesis
  proof (cases "opt_run (OptimalCache_init c) (take i (annotate 0 (map fst rows)))")
    case (Inl e)
    then show ?thesis using sm by (simp add: opt_observe_prefix_def eq)
  next
    case (Inr a)
    obtain s' hs where a: "a = (s', hs)" by (cases a)
    from sm Inr a obtain rh rm wh wm where
      "belady_loop (OptimalCache_init c) (0, 0, 0, 0, 0, 0) (take i rows) ?nus
         = Inr (s', (int (hits_in hs), int (misses_in hs), rh, rm, wh, wm))" by auto
    then show ?thesis using Inr a by (simp add: opt_observe_prefix_def eq)
  qed
qed

text \<open>
  C10: take two request sequences with the same keys, request by request, whose
  operations are all \<open>Read\<close> or \<open>Write\<close>. The drivers of LRU, ARC, LARC and N-Hit, which
  compare the operation with these two strings, and the driver of LRU&N-Hit.py, which
  compares the operation stripped and in lower case with \<open>'read'\<close> and \<open>'write'\<close>, then
  end in the same engine state on both, with the same totals of requests, hits and misses
  (and the same cold misses), or raise the same exception on both; and so they do after
  the first \<open>i\<close> requests, for every \<open>i\<close>, so that each single request has the same
  outcome. The Belady driver is handed the operations by \<open>read_csv\<close>, already in lower
  case; for it the same holds of any two sequences with the same keys, whatever their
  operations, the first \<open>i\<close> requests being run with the next-use array of the whole
  sequence. Only the split of the totals between the read and the write counters can
  differ.
\<close>

theorem operation_noninterference:
  assumes keys: "map fst rows = map fst rows'"
    and ops: "\<forall>r \<in> set rows \<union> set rows'. snd r = ''Read'' \<or> snd r = ''Write''"
    and lkeys: "map fst lrows = map fst lrows'"
  shows "lru_observe s1 rows = lru_observe s1 rows'
     \<and> arc_observe s2 rows = arc_observe s2 rows'
     \<and> larc_observe s3 rows = larc_observe s3 rows'
     \<and> nhit_observe rows c trig ins = nhit_observe rows' c trig ins
     \<and> nhit_lru_observe rows c trig n ratio = nhit_lru_observe rows' c trig n ratio
     \<and> opt_observe c lrows = opt_observe c lrows'
     \<and> lru_observe s1 (take i rows) = lru_observe s1 (take i rows')
     \<and> arc_observe s2 (take i rows) = arc_observe s2 (take i rows')
     \<and> larc_observe s3 (take i rows) = larc_observe s3 (take i rows')
     \<and> nhit_observe (take i rows) c trig ins = nhit_observe (take i rows') c trig ins
     \<and> nhit_lru_observe (take i rows) c trig n ratio
         = nhit_lru_observe (take i rows') c trig n ratio
     \<and> opt_observe_prefix c i lrows = opt_observe_prefix c i lrows'"
proof -
  have o: "\<forall>r \<in> set rows. snd r = ''Read'' \<or> snd r = ''Write''"
    "\<forall>r \<in> set rows'. snd r = ''Read'' \<or> snd r = ''Write''"
    using ops by auto
  have tk: "map fst (take i rows) = map fst (take i rows')"
    using keys by (simp add: take_map[symmetric])
  have ot: "\<forall>r \<in> set (take i rows). snd r = ''Read'' \<or> snd r = ''Write''"
    "\<forall>r \<in> set (take i rows'). snd r = ''Read'' \<or> snd r = ''Write''"
    using o by (auto dest: in_set_takeD)
  have "lru_observe s1 rows = lru_observe s1 rows'"
    by (simp only: lru_observe_keys keys)
  moreover have "arc_observe s2 rows = arc_observe s2 rows'"
    by (simp only: arc_observe_keys[OF o(1)] arc_observe_keys[OF o(2)] keys)
  moreover have "larc_observe s3 rows = larc_observe s3 rows'"
    by (simp only: larc_observe_keys[OF o(1)] larc_observe_keys[OF o(2)] keys)
  moreover have "nhit_observe rows c trig ins = nhit_observe rows' c trig ins"
    by (simp only: nhit_observe_keys keys)
  moreover have "nhit_lru_observe rows c trig n ratio = nhit_lru_observe rows' c trig n ratio"
    by (simp only: nhit_lru_observe_keys[OF o(1)] nhit_lru_observe_keys[OF o(2)] keys)
  moreover have "opt_observe c lrows = opt_observe c lrows'"
    by (simp only: opt_observe_keys lkeys)
  moreover have "lru_observe s1 (take i rows) = lru_observe s1 (take i rows')"
    by (simp only: lru_observe_keys tk)
  moreover have "arc_observe s2 (take i rows) = arc_observe s2 (take i rows')"
    by (simp only: arc_observe_keys[OF ot(1)] arc_observe_keys[OF ot(2)] tk)
  moreover have "larc_observe s3 (take i rows) = larc_observe s3 (take i rows')"
    by (simp only: larc_observe_keys[OF ot(1)] larc_observe_keys[OF ot(2)] tk)
  moreover have "nhit_observe (take i rows) c trig ins = nhit_observe (take i rows') c trig ins"
    by (simp only: nhit_observe_keys tk)
  moreover have "nhit_lru_observe (take i rows) c trig n ratio
         = nhit_lru_observe (take i rows') c trig n ratio"
    by (simp only: nhit_lru_observe_keys[OF ot(1)] nhit_lru_observe_keys[OF ot(2)] tk)
  moreover have "opt_observe_prefix c i lrows = opt_observe_prefix c i lrows'"
    by (simp only: opt_observe_prefix_keys lkeys)
  ultimately show ?thesis by blast
qed

lemma lru_observe_example:
  "lru_observe (LRUCache_init 2) [(1, ''Read''), (2, ''Write''), (1, ''Read'')]
     = Inr (\<lparr>max_capacity = 2, cache_store = [2, 1]\<rparr>, 3, 1, 2)"
  by (simp add: lru_observe_def simulate_lru_policy_def LRUCache_init_def
      access_or_update_cache_def od_setitem_def od_move_to_end_def collect_statistics_def
      totals_def)

lemma nhit_lru_observe_example:
  "nhit_lru_observe [(1, ''Read''), (2, ''Write''), (1, ''Read'')] 2 80 2 2
     = Inr ((\<lparr>capacity = 2, cache = [2, 1]\<rparr>,
             \<lparr>trigger_threshold = 80, N = 2, cache_capacity = 2, max_tracked_items = 4,
               access_counts = [(1, 1)], tracking_queue = [1]\<rparr>), 3, 1, 2)"
  by code_simp

theorem operation_noninterference_witness:
  "map fst [(1::int, ''Read''), (2, ''Write''), (1, ''Read'')]
     = map fst [(1::int, ''Write''), (2, ''Read''), (1, ''Write'')]
   \<and> map fst [(1::int, ''read''), (2, ''write''), (1, ''read'')]
     = map fst [(1::int, ''write''), (2, ''read''), (1, ''write'')]
   \<and> lru_observe (LRUCache_init 2) [(1, ''Read''), (2, ''Write''), (1, ''Read'')]
       = Inr (\<lparr>max_capacity = 2, cache_store = [2, 1]\<rparr>, 3, 1, 2)
   \<and> lru_observe (LRUCache_init 2) [(1, ''Write''), (2, ''Read''), (1, ''Write'')]
       = Inr (\<lparr>max_capacity = 2, cache_store = [2, 1]\<rparr>, 3, 1, 2)
   \<and> arc_observe (ARCCache_init 2) [(1, ''Read''), (2, ''Write''), (1, ''Read'')]
       = arc_observe (ARCCache_init 2) [(1, ''Write''), (2, ''Read''), (1, ''Write'')]
   \<and> nhit_lru_observe [(1, ''Read''), (2, ''Write''), (1, ''Read'')] 2 80 2 2
       = Inr ((\<lparr>capacity = 2, cache = [2, 1]\<rparr>,
               \<lparr>trigger_threshold = 80, N = 2, cache_capacity = 2, max_tracked_items = 4,
                 access_counts = [(1, 1)], tracking_queue = [1]\<rparr>), 3, 1, 2)
   \<and> nhit_lru_observe [(1, ''Write''), (2, ''Read''), (1, ''Write'')] 2 80 2 2
       = Inr ((\<lparr>capacity = 2, cache = [2, 1]\<rparr>,
               \<lparr>trigger_threshold = 80, N = 2, cache_capacity = 2, max_tracked_items = 4,
                 access_counts = [(1, 1)], tracking_queue = [1]\<rparr>), 3, 1, 2)
   \<and> opt_observe 2 [(1, ''read''), (2, ''write''), (1, ''read'')]
       = opt_observe 2 [(1, ''write''), (2, ''read''), (1, ''write'')]
   \<and> opt_observe_prefix 2 2 [(1, ''read''), (2, ''write''), (1, ''read'')]
       = opt_observe_prefix 2 2 [(1, ''write''), (2, ''read''), (1, ''write'')]"
  using operation_noninterference[where rows="[(1, ''Read''), (2, ''Write''), (1, ''Read'')]"
      and rows'="[(1, ''Write''), (2, ''Read''), (1, ''Write'')]"
      and lrows="[(1, ''read''), (2, ''write''), (1, ''read'')]"
      and lrows'="[(1, ''write''), (2, ''read''), (1, ''write'')]"
      and ?s1.0="LRUCache_init 2" and ?s2.0="ARCCache_init 2" and c=2 and i=2
      and trig=80 and n=2 and ratio=2]
    lru_observe_example nhit_lru_observe_example
  by simp

end
